theory Spec2Isabelle
  imports
    Main
    "HOL-Library.Sublist"
    "HOL-Library.Char_ord"
    "HOL-Library.List_Lexorder"
    "HOL-Library.Multiset"
begin

section \<open>Python values\<close>

text \<open>
  The publication records of \<^verbatim>\<open>publications_query.py\<close> are Python dicts decoded from
  the JSON answers of the bibliographic service. Their values are modelled by \<open>pyval\<close>:
  \<^verbatim>\<open>None\<close>, booleans, integers, strings and lists of strings. A \<open>char\<close> stands for one
  Python character (a code point below 256), so that iterating a string, comparing two
  strings and taking the length of one agree with Python.
\<close>

datatype pyval = PNone | PBool bool | PInt int | PStr string | PList "string list"

text \<open>The exceptions the modelled code can raise. In Python 3 \<^verbatim>\<open>IOError\<close> is \<^verbatim>\<open>OSError\<close>.\<close>

datatype py_error =
  KeyError string | TypeError | AttributeError string | OSError | OverflowError

subsection \<open>Strings\<close>

text \<open>\<^verbatim>\<open>sub in s\<close> for two strings: \<open>sub\<close> occurs in \<open>s\<close> as a contiguous piece.\<close>

fun str_contains :: "string \<Rightarrow> string \<Rightarrow> bool" where
  "str_contains sub [] = (sub = [])"
| "str_contains sub (c # cs) = (prefix sub (c # cs) \<or> str_contains sub cs)"

text \<open>\<^verbatim>\<open>sep.join(xs)\<close> for a list of strings.\<close>

fun join :: "string \<Rightarrow> string list \<Rightarrow> string" where
  "join sep [] = []"
| "join sep [x] = x"
| "join sep (x # y # ys) = x @ sep @ join sep (y # ys)"

text \<open>
  \<^verbatim>\<open>sep.join(v)\<close> for a value: a list of strings is joined, a string is iterated
  character by character, anything else is not iterable (\<^verbatim>\<open>TypeError\<close>).
\<close>

fun py_join :: "string \<Rightarrow> pyval \<Rightarrow> py_error + pyval" where
  "py_join sep (PList xs) = Inr (PStr (join sep xs))"
| "py_join sep (PStr s) = Inr (PStr (join sep (map (\<lambda>c. [c]) s)))"
| "py_join sep v = Inl TypeError"

text \<open>The truth value of a value, as \<^verbatim>\<open>if v:\<close> tests it.\<close>

fun truthy :: "pyval \<Rightarrow> bool" where
  "truthy PNone = False"
| "truthy (PBool b) = b"
| "truthy (PInt n) = (n \<noteq> 0)"
| "truthy (PStr s) = (s \<noteq> [])"
| "truthy (PList xs) = (xs \<noteq> [])"

text \<open>
  \<^verbatim>\<open>x in v\<close> for a string \<open>x\<close>: membership in a list, the substring test on a string,
  \<^verbatim>\<open>TypeError\<close> on a value that is not a container.
\<close>

fun py_in :: "string \<Rightarrow> pyval \<Rightarrow> py_error + bool" where
  "py_in x (PList xs) = Inr (x \<in> set xs)"
| "py_in x (PStr s) = Inr (str_contains x s)"
| "py_in x v = Inl TypeError"

subsection \<open>Formatting\<close>

text \<open>
  \<^verbatim>\<open>'{0}'.format(v)\<close> is \<^verbatim>\<open>str(v)\<close> for the values modelled here. The string of a list
  shows the \<^verbatim>\<open>repr\<close> of its elements: quoted, with backslash escapes for the quote, the
  backslash and the characters that are not printable.
\<close>

definition digit_char :: "nat \<Rightarrow> char" where
  "digit_char n = ''0123456789abcdef'' ! n"

fun str_nat :: "nat \<Rightarrow> string" where
  "str_nat n = (if n < 10 then [digit_char n] else str_nat (n div 10) @ [digit_char (n mod 10)])"

definition str_int :: "int \<Rightarrow> string" where
  "str_int i = (if i < 0 then CHR ''-'' # str_nat (nat (- i)) else str_nat (nat i))"

definition printable :: "char \<Rightarrow> bool" where
  "printable c = (let n = (of_char c :: nat) in (32 \<le> n \<and> n < 127) \<or> (161 \<le> n \<and> n \<noteq> 173))"

definition repr_char :: "char \<Rightarrow> char \<Rightarrow> string" where
  "repr_char quote c =
    (if c = quote \<or> c = CHR 0x5C then [CHR 0x5C, c]
     else if c = CHR 0x09 then [CHR 0x5C, CHR ''t'']
     else if c = CHR 0x0A then [CHR 0x5C, CHR ''n'']
     else if c = CHR 0x0D then [CHR 0x5C, CHR ''r'']
     else if printable c then [c]
     else [CHR 0x5C, CHR ''x'', digit_char (of_char c div 16), digit_char (of_char c mod 16)])"

definition repr_str :: "string \<Rightarrow> string" where
  "repr_str s =
    (let quote = (if CHR 0x27 \<in> set s \<and> CHR 0x22 \<notin> set s then CHR 0x22 else CHR 0x27)
     in quote # concat (map (repr_char quote) s) @ [quote])"

fun py_str :: "pyval \<Rightarrow> string" where
  "py_str PNone = ''None''"
| "py_str (PBool b) = (if b then ''True'' else ''False'')"
| "py_str (PInt i) = str_int i"
| "py_str (PStr s) = s"
| "py_str (PList xs) = ''['' @ join '', '' (map repr_str xs) @ '']''"

subsection \<open>Ordering and sorting\<close>

text \<open>
  \<^verbatim>\<open>a < b\<close>: numbers (booleans count as 0 and 1) compare by value, strings and lists of
  strings lexicographically; every other pair raises \<^verbatim>\<open>TypeError\<close>.
\<close>

fun num_of :: "pyval \<Rightarrow> int option" where
  "num_of (PBool b) = Some (if b then 1 else 0)"
| "num_of (PInt i) = Some i"
| "num_of v = None"

fun py_lt :: "pyval \<Rightarrow> pyval \<Rightarrow> py_error + bool" where
  "py_lt (PStr s) (PStr t) = Inr (s < t)"
| "py_lt (PList xs) (PList ys) = Inr (xs < ys)"
| "py_lt a b =
    (case num_of a of
       None \<Rightarrow> Inl TypeError
     | Some m \<Rightarrow> (case num_of b of None \<Rightarrow> Inl TypeError | Some n \<Rightarrow> Inr (m < n)))"

definition orderable :: "pyval \<Rightarrow> pyval \<Rightarrow> bool" where
  "orderable a b = (case py_lt a b of Inl e \<Rightarrow> False | Inr r \<Rightarrow> True)"

definition lt :: "pyval \<Rightarrow> pyval \<Rightarrow> bool" where
  "lt a b = (py_lt a b = Inr True)"

text \<open>
  \<^verbatim>\<open>xs.sort(key=...)\<close> on the list of pairs of a key and an element. The sort compares
  keys with \<^verbatim>\<open><\<close> only; with two or more elements every key takes part in a comparison
  and the comparisons connect the whole list, so the sort raises \<^verbatim>\<open>TypeError\<close> exactly
  when some two keys are not ordered by \<^verbatim>\<open><\<close>. Otherwise the result is the stable sort:
  elements with equal keys keep their order.
\<close>

fun insort_lt :: "pyval \<times> 'a \<Rightarrow> (pyval \<times> 'a) list \<Rightarrow> (pyval \<times> 'a) list" where
  "insort_lt x [] = [x]"
| "insort_lt x (y # ys) = (if lt (fst y) (fst x) then y # insort_lt x ys else x # y # ys)"

definition py_sort :: "(pyval \<times> 'a) list \<Rightarrow> py_error + 'a list" where
  "py_sort kxs =
    (if length kxs \<le> 1 \<or> list_all (\<lambda>kx. orderable (fst (hd kxs)) (fst kx)) kxs
     then Inr (map snd (foldr insort_lt kxs []))
     else Inl TypeError)"

section \<open>Temporary bibcodes\<close>

text \<open>
  \<^verbatim>\<open>def ignore_tmp_bibcodes(bibcodes):
      return [bibcode for bibcode in bibcodes if 'tmp' not in bibcode]\<close>
\<close>

definition ignore_tmp_bibcodes :: "string list \<Rightarrow> string list" where
  "ignore_tmp_bibcodes bibcodes = [bibcode \<leftarrow> bibcodes. \<not> str_contains ''tmp'' bibcode]"

section \<open>Dictionaries and objects\<close>

text \<open>
  A publication record is a dict from field names to values. The code updates the records
  in place, and the two query results and the merged mapping refer to the same record
  objects, so the records live in a store: an address stands for a dict object, and a
  result mapping is a dict from bibcodes to addresses, kept in insertion order.
\<close>

type_synonym pydict = "string \<rightharpoonup> pyval"
type_synonym addr = nat
type_synonym store = "addr \<Rightarrow> pydict"
type_synonym results = "(string \<times> addr) list"

text \<open>\<^verbatim>\<open>d[k] = v\<close> on an insertion-ordered dict: an existing key keeps its place.\<close>

fun dict_setitem :: "('k \<times> 'v) list \<Rightarrow> 'k \<Rightarrow> 'v \<Rightarrow> ('k \<times> 'v) list" where
  "dict_setitem [] k v = [(k, v)]"
| "dict_setitem ((k', v') # d) k v =
    (if k' = k then (k, v) # d else (k', v') # dict_setitem d k v)"

text \<open>Unpacking the items of \<open>e\<close> into the dict \<open>d\<close>, in order.\<close>

definition dict_update :: "('k \<times> 'v) list \<Rightarrow> ('k \<times> 'v) list \<Rightarrow> ('k \<times> 'v) list" where
  "dict_update d e = fold (\<lambda>(k, v) d'. dict_setitem d' k v) e d"

section \<open>The publications of a run\<close>

text \<open>
  \<^verbatim>\<open>run_pub\<close> gets its two result mappings from \<^verbatim>\<open>ADSQueries\<close>, which is not part of the
  sources at hand: \<open>by_keywords\<close> and \<open>by_authors\<close> are parameters of the model.

  \<^verbatim>\<open>all = {**by_keywords, **by_authors}\<close>
\<close>

definition merge_results :: "results \<Rightarrow> results \<Rightarrow> results" where
  "merge_results by_keywords by_authors = dict_update (dict_update [] by_keywords) by_authors"

text \<open>
  \<^verbatim>\<open>for b in by_keywords:
      all[b]['keywords'] = by_keywords[b]['keywords']\<close>
  The right-hand side is evaluated first; a missing key raises \<^verbatim>\<open>KeyError\<close>.
\<close>

fun retain_keywords :: "results \<Rightarrow> results \<Rightarrow> string list \<Rightarrow> store \<Rightarrow> py_error + store" where
  "retain_keywords all by_keywords [] h = Inr h"
| "retain_keywords all by_keywords (b # bs) h =
    (case map_of by_keywords b of
       None \<Rightarrow> Inl (KeyError b)
     | Some k \<Rightarrow>
        (case h k ''keywords'' of
           None \<Rightarrow> Inl (KeyError ''keywords'')
         | Some v \<Rightarrow>
            (case map_of all b of
               None \<Rightarrow> Inl (KeyError b)
             | Some a \<Rightarrow>
                retain_keywords all by_keywords bs (h(a := (h a)(''keywords'' \<mapsto> v))))))"

text \<open>
  \<^verbatim>\<open>publications = [all[b] for b in all.keys()]\<close>: the values of the dict in the order of
  its keys.
\<close>

definition flatten :: "results \<Rightarrow> addr list" where
  "flatten all = map snd all"

text \<open>
  \<^verbatim>\<open>publications.sort(key=lambda p: p['bibcode'])\<close>: the keys of all elements are computed
  first, then the list is sorted.
\<close>

fun sort_keys :: "store \<Rightarrow> addr list \<Rightarrow> py_error + (pyval \<times> addr) list" where
  "sort_keys h [] = Inr []"
| "sort_keys h (p # ps) =
    (case h p ''bibcode'' of
       None \<Rightarrow> Inl (KeyError ''bibcode'')
     | Some k \<Rightarrow> (case sort_keys h ps of Inl e \<Rightarrow> Inl e | Inr kps \<Rightarrow> Inr ((k, p) # kps)))"

definition sort_publications :: "store \<Rightarrow> addr list \<Rightarrow> py_error + addr list" where
  "sort_publications h ps = (case sort_keys h ps of Inl e \<Rightarrow> Inl e | Inr kps \<Rightarrow> py_sort kps)"

text \<open>
  \<^verbatim>\<open>for p in publications:
      p['ads_url'] = 'https://ui.adsabs.harvard.edu/#abs/{0}/abstract'.format(p['bibcode'])\<close>
\<close>

definition ads_url :: "pyval \<Rightarrow> string" where
  "ads_url bibcode = ''https://ui.adsabs.harvard.edu/#abs/'' @ py_str bibcode @ ''/abstract''"

fun add_ads_urls :: "addr list \<Rightarrow> store \<Rightarrow> py_error + store" where
  "add_ads_urls [] h = Inr h"
| "add_ads_urls (p # ps) h =
    (case h p ''bibcode'' of
       None \<Rightarrow> Inl (KeyError ''bibcode'')
     | Some b \<Rightarrow> add_ads_urls ps (h(p := (h p)(''ads_url'' \<mapsto> PStr (ads_url b)))))"

text \<open>
  \<^verbatim>\<open>for p in publications:
      p['refereed'] = 'REFEREED' in p['property']\<close>
\<close>

fun add_refereed :: "addr list \<Rightarrow> store \<Rightarrow> py_error + store" where
  "add_refereed [] h = Inr h"
| "add_refereed (p # ps) h =
    (case h p ''property'' of
       None \<Rightarrow> Inl (KeyError ''property'')
     | Some v \<Rightarrow>
        (case py_in ''REFEREED'' v of
           Inl e \<Rightarrow> Inl e
         | Inr r \<Rightarrow> add_refereed ps (h(p := (h p)(''refereed'' \<mapsto> PBool r)))))"

text \<open>
  \<^verbatim>\<open>for p in publications:
      list_value_columns = ['author', 'title', 'doi', 'keywords', 'page']
      for c in list_value_columns:
          if c in p and p[c]:
              p[c] = ', '.join(p[c])\<close>
\<close>

definition list_value_columns :: "string list" where
  "list_value_columns = [''author'', ''title'', ''doi'', ''keywords'', ''page'']"

fun join_columns :: "string list \<Rightarrow> pydict \<Rightarrow> py_error + pydict" where
  "join_columns [] d = Inr d"
| "join_columns (c # cs) d =
    (case d c of
       None \<Rightarrow> join_columns cs d
     | Some v \<Rightarrow>
        (if truthy v
         then (case py_join '', '' v of
                 Inl e \<Rightarrow> Inl e
               | Inr s \<Rightarrow> join_columns cs (d(c \<mapsto> s)))
         else join_columns cs d))"

fun join_list_values :: "addr list \<Rightarrow> store \<Rightarrow> py_error + store" where
  "join_list_values [] h = Inr h"
| "join_list_values (p # ps) h =
    (case join_columns list_value_columns (h p) of
       Inl e \<Rightarrow> Inl e
     | Inr d \<Rightarrow> join_list_values ps (h(p := d)))"

text \<open>
  The values on which the test and the join of the last loop do not raise: an absent field,
  a value that counts as false, a list of strings or a string.
\<close>

definition joinable :: "pyval option \<Rightarrow> bool" where
  "joinable ov =
    (case ov of
       None \<Rightarrow> True
     | Some v \<Rightarrow> (if truthy v then (case py_join '', '' v of Inl e \<Rightarrow> False | Inr s \<Rightarrow> True) else True))"

text \<open>The three loops that follow the sort, lines 198 to 211 of \<^verbatim>\<open>run_pub\<close>.\<close>

definition enrich :: "addr list \<Rightarrow> store \<Rightarrow> py_error + store" where
  "enrich ps h =
    (case add_ads_urls ps h of
       Inl e \<Rightarrow> Inl e
     | Inr h1 \<Rightarrow>
        (case add_refereed ps h1 of
           Inl e \<Rightarrow> Inl e
         | Inr h2 \<Rightarrow> join_list_values ps h2))"


section \<open>The spreadsheet and the mail\<close>

text \<open>\<^verbatim>\<open>d.get(k, default)\<close>\<close>

definition dict_get :: "pydict \<Rightarrow> string \<Rightarrow> pyval \<Rightarrow> pyval" where
  "dict_get d k dflt = (case d k of None \<Rightarrow> dflt | Some v \<Rightarrow> v)"

text \<open>
  \<^verbatim>\<open>worksheet.write(row, col, v)\<close> takes \<^verbatim>\<open>None\<close>, a boolean, a number or a string. It
  refuses a list with \<^verbatim>\<open>TypeError\<close>, and an integer that does not fit a float with
  \<^verbatim>\<open>OverflowError\<close>: the conversion rounds to the nearest float, so it fails from
  \<open>2 ^ 1024 - 2 ^ 970\<close> on, the midpoint between the largest float and \<open>2 ^ 1024\<close>.
  The result is the value the cell holds.
\<close>

fun worksheet_write :: "pyval \<Rightarrow> py_error + pyval" where
  "worksheet_write (PList xs) = Inl TypeError"
| "worksheet_write (PInt i) =
    (if 2 ^ 1024 - 2 ^ 970 \<le> \<bar>i\<bar> then Inl OverflowError else Inr (PInt i))"
| "worksheet_write v = Inr v"

text \<open>
  \<^verbatim>\<open>for row, p in enumerate(publications):
      for col, c in enumerate(columns):
          worksheet.write(row, col, p.get(c, ''))\<close>
  The spreadsheet is modelled by its rows of cell values, written row by row and cell by
  cell; the first refusal is raised and there is no spreadsheet. The encoding of the
  workbook is the library's.
\<close>

type_synonym sheet = "pyval list list"

fun write_cells :: "pydict \<Rightarrow> string list \<Rightarrow> py_error + pyval list" where
  "write_cells p [] = Inr []"
| "write_cells p (c # cs) =
    (case worksheet_write (dict_get p c (PStr [])) of
       Inl e \<Rightarrow> Inl e
     | Inr v \<Rightarrow> (case write_cells p cs of Inl e \<Rightarrow> Inl e | Inr vs \<Rightarrow> Inr (v # vs)))"

fun publications_spreadsheet :: "store \<Rightarrow> addr list \<Rightarrow> string list \<Rightarrow> py_error + sheet" where
  "publications_spreadsheet h [] columns = Inr []"
| "publications_spreadsheet h (p # ps) columns =
    (case write_cells (h p) columns of
       Inl e \<Rightarrow> Inl e
     | Inr r \<Rightarrow>
        (case publications_spreadsheet h ps columns of
           Inl e \<Rightarrow> Inl e
         | Inr rs \<Rightarrow> Inr (r # rs)))"

definition spreadsheet_columns :: "(string \<times> string) list" where
  "spreadsheet_columns =
    [(''record_type'', ''Record Type''),
     (''publication_number'', ''Doc/Publication Number''),
     (''author'', ''Responsibility''),
     (''title'', ''Title''),
     (''pub'', ''Journal''),
     (''volume'', ''Volume''),
     (''issue'', ''Issue''),
     (''page'', ''Page''),
     (''refereed'', ''Refereed''),
     (''bibcode'', ''Bibcode''),
     (''doi'', ''DOI''),
     (''ads_url'', ''ADS URL''),
     (''abstract'', ''Abstract''),
     (''telescopes'', ''Telescopes''),
     (''keywords'', ''Keywords'')]"

subsection \<open>The configuration module\<close>

text \<open>
  \<^verbatim>\<open>config.py\<close> binds its names from environment variables and two text files when it is
  imported. The record holds the values bound; \<open>authors_loop\<close> holds the loop variables
  \<^verbatim>\<open>b\<close>, \<^verbatim>\<open>key\<close> and \<^verbatim>\<open>value\<close>, bound when \<^verbatim>\<open>authors.txt\<close> has a line.
\<close>

record config =
  SECRET_KEY :: string
  ADS_API_KEY :: string
  AUTHORS :: "(string \<times> string) list"
  KEYWORDS :: "string list"
  FROM_EMAIL_ADDRESS :: string
  LIBRARIAN_EMAIL_ADDRESSES :: "string list"
  authors_loop :: "(string \<times> string \<times> string) option"

datatype cfgval =
  CBool bool | CStr string | CStrs "string list" | CDict "(string \<times> string) list" | CObject

text \<open>
  The namespace of the module: the names every module has, then the names \<^verbatim>\<open>config.py\<close>
  binds, in the order of its statements. \<open>CObject\<close> stands for a module or file object.
\<close>

definition config_module :: "config \<Rightarrow> (string \<times> cfgval) list" where
  "config_module c =
    map (\<lambda>n. (n, CObject))
      [''__name__'', ''__doc__'', ''__package__'', ''__loader__'', ''__spec__'', ''__file__'',
       ''__cached__'', ''__builtins__'', ''os''] @
    [(''CSRF_ENABLED'', CBool False),
     (''SECRET_KEY'', CStr (SECRET_KEY c)),
     (''ADS_API_KEY'', CStr (ADS_API_KEY c)),
     (''AUTHORS'', CDict (AUTHORS c)),
     (''KEYWORDS'', CStrs (KEYWORDS c)),
     (''f1'', CObject),
     (''f'', CObject)] @
    (case authors_loop c of
       None \<Rightarrow> []
     | Some (b, key, val) \<Rightarrow> [(''b'', CStr b), (''key'', CStr key), (''value'', CStr val)]) @
    [(''FROM_EMAIL_ADDRESS'', CStr (FROM_EMAIL_ADDRESS c)),
     (''LIBRARIAN_EMAIL_ADDRESSES'', CStrs (LIBRARIAN_EMAIL_ADDRESSES c)),
     (''email'', CStrs (LIBRARIAN_EMAIL_ADDRESSES c))]"

text \<open>\<^verbatim>\<open>module.name\<close>: a name the module does not bind raises \<^verbatim>\<open>AttributeError\<close>.\<close>

definition module_getattr :: "(string \<times> cfgval) list \<Rightarrow> string \<Rightarrow> py_error + cfgval" where
  "module_getattr m name =
    (case map_of m name of None \<Rightarrow> Inl (AttributeError name) | Some v \<Rightarrow> Inr v)"

subsection \<open>Files\<close>

text \<open>
  The file system as the code sees it: the text of each regular file, and the paths at
  which a file can be created. A path with no regular file that is not creatable stands
  for a directory, a missing parent directory or a place without write permission.
\<close>

record filesys =
  contents :: "string \<rightharpoonup> string"
  creatable :: "string \<Rightarrow> bool"

definition isfile :: "filesys \<Rightarrow> string \<Rightarrow> bool" where
  "isfile fs path = (contents fs path \<noteq> None)"

text \<open>\<^verbatim>\<open>with open(path, 'w') as f: f.close()\<close>: the file is created or emptied.\<close>

definition open_w :: "filesys \<Rightarrow> string \<Rightarrow> py_error + filesys" where
  "open_w fs path =
    (if isfile fs path \<or> creatable fs path
     then Inr (fs\<lparr>contents := (contents fs)(path \<mapsto> [])\<rparr>)
     else Inl OSError)"

text \<open>Reading in text mode turns \<^verbatim>\<open>\r\n\<close> and \<^verbatim>\<open>\r\<close> into \<^verbatim>\<open>\n\<close>.\<close>

fun universal_newlines :: "string \<Rightarrow> string" where
  "universal_newlines [] = []"
| "universal_newlines [c] = (if c = CHR 0x0D then [CHR 0x0A] else [c])"
| "universal_newlines (c # d # s) =
    (if c = CHR 0x0D \<and> d = CHR 0x0A then CHR 0x0A # universal_newlines s
     else if c = CHR 0x0D then CHR 0x0A # universal_newlines (d # s)
     else c # universal_newlines (d # s))"

text \<open>\<^verbatim>\<open>f.readlines()\<close>: the lines of the text, each with its newline; \<open>cur\<close> is the line read so far.\<close>

fun readlines_from :: "string \<Rightarrow> string \<Rightarrow> string list" where
  "readlines_from cur [] = (if cur = [] then [] else [cur])"
| "readlines_from cur (c # s) =
    (if c = CHR 0x0A then (cur @ [c]) # readlines_from [] s else readlines_from (cur @ [c]) s)"

definition readlines :: "string \<Rightarrow> string list" where
  "readlines text = readlines_from [] (universal_newlines text)"

text \<open>\<^verbatim>\<open>line.strip()\<close> removes the whitespace characters at both ends.\<close>

definition isspace :: "char \<Rightarrow> bool" where
  "isspace c = ((of_char c :: nat) \<in> set [9, 10, 11, 12, 13, 28, 29, 30, 31, 32, 133, 160])"

definition strip :: "string \<Rightarrow> string" where
  "strip s = rev (dropWhile isspace (rev (dropWhile isspace s)))"

text \<open>
  \<^verbatim>\<open>with open(path) as f:
      return [line.strip() for line in f.readlines()]\<close>
\<close>

definition read_bibcodes :: "filesys \<Rightarrow> string \<Rightarrow> py_error + string list" where
  "read_bibcodes fs path =
    (case contents fs path of None \<Rightarrow> Inl OSError | Some text \<Rightarrow> Inr (map strip (readlines text)))"

subsection \<open>The previously found bibcodes\<close>

text \<open>
  The two functions read \<^verbatim>\<open>config.PREVIOUS_BIBCODES_FILE\<close>. They are modelled on a module
  namespace \<open>m\<close>; the code runs them on \<open>config_module c\<close>. The value of the attribute is
  used as a path: a string names a file, a list, a dict or an object is rejected with
  \<^verbatim>\<open>TypeError\<close>. (Python would read a boolean as a file descriptor; there are no
  descriptors here, and a boolean is rejected like the other values.)
\<close>

definition previous_bibcodes_file :: "(string \<times> cfgval) list \<Rightarrow> py_error + string" where
  "previous_bibcodes_file m =
    (case module_getattr m ''PREVIOUS_BIBCODES_FILE'' of
       Inl e \<Rightarrow> Inl e
     | Inr (CStr path) \<Rightarrow> Inr path
     | Inr v \<Rightarrow> Inl TypeError)"

text \<open>
  \<^verbatim>\<open>def _ensure_previously_recorded_file_exists():
      if not os.path.isfile(config.PREVIOUS_BIBCODES_FILE):
          with open(config.PREVIOUS_BIBCODES_FILE, 'w') as f:
              f.close()
      if not os.path.isfile(config.PREVIOUS_BIBCODES_FILE):
          raise IOError(...)\<close>
\<close>

definition ensure_previously_recorded_file_exists ::
    "(string \<times> cfgval) list \<Rightarrow> filesys \<Rightarrow> py_error + filesys" where
  "ensure_previously_recorded_file_exists m fs =
    (case previous_bibcodes_file m of
       Inl e \<Rightarrow> Inl e
     | Inr path \<Rightarrow>
        (case (if \<not> isfile fs path then open_w fs path else Inr fs) of
           Inl e \<Rightarrow> Inl e
         | Inr fs' \<Rightarrow> if \<not> isfile fs' path then Inl OSError else Inr fs'))"

text \<open>
  \<^verbatim>\<open>def previously_found_bibcodes():
      _ensure_previously_recorded_file_exists()
      with open(config.PREVIOUS_BIBCODES_FILE) as f:
          return [line.strip() for line in f.readlines()]\<close>
  The result is the list returned together with the file system left behind.
\<close>

definition previously_found_bibcodes ::
    "(string \<times> cfgval) list \<Rightarrow> filesys \<Rightarrow> py_error + string list \<times> filesys" where
  "previously_found_bibcodes m fs =
    (case ensure_previously_recorded_file_exists m fs of
       Inl e \<Rightarrow> Inl e
     | Inr fs' \<Rightarrow>
        (case previous_bibcodes_file m of
           Inl e \<Rightarrow> Inl e
         | Inr path \<Rightarrow>
            (case read_bibcodes fs' path of Inl e \<Rightarrow> Inl e | Inr bs \<Rightarrow> Inr (bs, fs'))))"

subsection \<open>A run\<close>





section \<open>Properties\<close>

subsection \<open>Temporary bibcodes\<close>

lemma str_contains_sublist: "str_contains sub s = sublist sub s"
  by (induction s) (simp_all add: sublist_Cons_right)

text \<open>
  Claim C10. For every list of bibcode strings, \<open>ignore_tmp_bibcodes\<close> returns exactly the
  elements that do not contain \<open>tmp\<close> as a substring, in their original order (it is the
  filter of the list by that test), and applying it twice equals applying it once.
\<close>

theorem ignore_tmp_bibcodes_filter_idem:
  "ignore_tmp_bibcodes bs = filter (\<lambda>b. \<not> sublist ''tmp'' b) bs
   \<and> ignore_tmp_bibcodes (ignore_tmp_bibcodes bs) = ignore_tmp_bibcodes bs"
  by (simp add: ignore_tmp_bibcodes_def str_contains_sublist)

subsection \<open>Dictionaries\<close>

lemma map_of_dict_setitem: "map_of (dict_setitem d k v) = (map_of d)(k \<mapsto> v)"
  by (induction d k v rule: dict_setitem.induct) auto

lemma keys_dict_setitem:
  "map fst (dict_setitem d k v) = (if k \<in> set (map fst d) then map fst d else map fst d @ [k])"
  by (induction d k v rule: dict_setitem.induct) auto

lemma distinct_dict_setitem: "distinct (map fst d) \<Longrightarrow> distinct (map fst (dict_setitem d k v))"
  by (simp add: keys_dict_setitem)

lemma keys_dict_update: "set (map fst (dict_update d e)) = set (map fst d) \<union> set (map fst e)"
  unfolding dict_update_def
proof (induction e arbitrary: d)
  case Nil
  show ?case by simp
next
  case (Cons x e)
  obtain k v where x: "x = (k, v)" by (cases x)
  have "set (map fst (dict_setitem d k v)) = insert k (set (map fst d))"
    by (auto simp: keys_dict_setitem)
  with Cons[of "dict_setitem d k v"] x show ?case by auto
qed

lemma distinct_dict_update: "distinct (map fst d) \<Longrightarrow> distinct (map fst (dict_update d e))"
  unfolding dict_update_def
  by (induction e arbitrary: d) (auto simp: distinct_dict_setitem)

lemma map_of_dict_update: "map_of (dict_update d e) = map_of d ++ map_of (rev e)"
  unfolding dict_update_def
  by (induction e arbitrary: d) (auto simp: map_of_dict_setitem)

lemma map_of_rev_distinct: "distinct (map fst xs) \<Longrightarrow> map_of (rev xs) = map_of xs"
  by (metis distinct_rev map_of_inject_set rev_map set_rev)

lemma map_of_distinct_keys:
  "distinct (map fst xs) \<Longrightarrow> map (map_of xs) (map fst xs) = map Some (map snd xs)"
  by (induction xs) (auto simp: rev_image_eqI)

lemma keys_merge_results:
  "set (map fst (merge_results kw au)) = set (map fst kw) \<union> set (map fst au)"
  unfolding merge_results_def keys_dict_update by simp

lemma distinct_merge_results: "distinct (map fst (merge_results kw au))"
  by (simp add: merge_results_def distinct_dict_update)

lemma map_of_merge_results:
  "distinct (map fst kw) \<Longrightarrow> distinct (map fst au) \<Longrightarrow>
   map_of (merge_results kw au) = map_of kw ++ map_of au"
  by (simp add: merge_results_def map_of_dict_update map_of_rev_distinct)

text \<open>
  Claim C3. The keys of the merged mapping are the keys of the by-keywords mapping together
  with the keys of the by-authors mapping, no key occurs twice, and the flattened list has
  exactly one entry for each key: it is as long as there are keys, and its entries are, in
  the order of the keys, the records the merged mapping holds for them.
\<close>

theorem merge_flatten_keys:
  "set (map fst (merge_results by_keywords by_authors))
     = set (map fst by_keywords) \<union> set (map fst by_authors)
   \<and> distinct (map fst (merge_results by_keywords by_authors))
   \<and> length (flatten (merge_results by_keywords by_authors))
     = card (set (map fst by_keywords) \<union> set (map fst by_authors))
   \<and> map (map_of (merge_results by_keywords by_authors))
       (map fst (merge_results by_keywords by_authors))
     = map Some (flatten (merge_results by_keywords by_authors))"
proof -
  let ?all = "merge_results by_keywords by_authors"
  have d: "distinct (map fst ?all)" by (rule distinct_merge_results)
  have k: "set (map fst ?all) = set (map fst by_keywords) \<union> set (map fst by_authors)"
    by (rule keys_merge_results)
  have "length (flatten ?all) = length (map fst ?all)" by (simp add: flatten_def)
  also have "\<dots> = card (set (map fst ?all))" using d by (simp only: distinct_card)
  finally have l: "length (flatten ?all) = card (set (map fst by_keywords) \<union> set (map fst by_authors))"
    using k by simp
  have m: "map (map_of ?all) (map fst ?all) = map Some (flatten ?all)"
    using d by (simp only: flatten_def map_of_distinct_keys)
  from k d l m show ?thesis by blast
qed

subsection \<open>The keywords loop\<close>

lemma retain_keywords_frame:
  "retain_keywords all kw bs h = Inr h' \<Longrightarrow> f \<noteq> ''keywords'' \<Longrightarrow> h' x f = h x f"
  by (induction bs arbitrary: h) (auto split: option.splits)

lemma retain_keywords_untouched:
  "retain_keywords all kw bs h = Inr h' \<Longrightarrow> \<forall>b\<in>set bs. map_of all b \<noteq> Some x \<Longrightarrow> h' x = h x"
  by (induction bs arbitrary: h) (auto split: option.splits)

lemma retain_keywords_value:
  assumes "retain_keywords all kw bs h = Inr h'"
    and "b \<in> set bs" and "distinct bs"
    and "map_of kw b = Some k" and "map_of all b = Some a"
    and "\<forall>b'\<in>set bs. b' \<noteq> b \<longrightarrow> map_of all b' \<noteq> Some a \<and> map_of all b' \<noteq> Some k"
  shows "h' a ''keywords'' = h k ''keywords''"
  using assms
proof (induction bs arbitrary: h)
  case Nil
  then show ?case by simp
next
  case (Cons b0 bs)
  show ?case
  proof (cases "b0 = b")
    case True
    from Cons.prems True obtain v where v: "h k ''keywords'' = Some v"
      and rest: "retain_keywords all kw bs (h(a := (h a)(''keywords'' \<mapsto> v))) = Inr h'"
      by (auto split: option.splits)
    from Cons.prems True have "\<forall>b'\<in>set bs. map_of all b' \<noteq> Some a" by auto
    from retain_keywords_untouched[OF rest this] v show ?thesis by simp
  next
    case False
    from Cons.prems False obtain k0 v0 a0 where k0: "map_of kw b0 = Some k0"
      and a0: "map_of all b0 = Some a0"
      and rest: "retain_keywords all kw bs (h(a0 := (h a0)(''keywords'' \<mapsto> v0))) = Inr h'"
      by (auto split: option.splits)
    from Cons.prems False a0 have ne: "a0 \<noteq> a" "a0 \<noteq> k" by auto
    from Cons.prems False have "b \<in> set bs" "distinct bs"
      "\<forall>b'\<in>set bs. b' \<noteq> b \<longrightarrow> map_of all b' \<noteq> Some a \<and> map_of all b' \<noteq> Some k" by auto
    from Cons.IH[OF rest this(1,2) Cons.prems(4,5) this(3)] ne show ?thesis by simp
  qed
qed

lemma distinct_snd_inj:
  "distinct (map snd xs) \<Longrightarrow> map_of xs b = Some a \<Longrightarrow> map_of xs b' = Some a \<Longrightarrow> b = b'"
  by (metis distinct_map inj_on_def map_of_SomeD prod.inject prod.collapse fst_conv snd_conv)


subsection \<open>The URL and the refereed flag\<close>

lemma add_ads_urls_frame:
  "add_ads_urls ps h = Inr h' \<Longrightarrow> f \<noteq> ''ads_url'' \<Longrightarrow> h' x f = h x f"
  by (induction ps arbitrary: h) (auto split: option.splits)

lemma add_ads_urls_untouched:
  "add_ads_urls ps h = Inr h' \<Longrightarrow> x \<notin> set ps \<Longrightarrow> h' x = h x"
  by (induction ps arbitrary: h) (auto split: option.splits)

lemma add_ads_urls_value:
  "add_ads_urls ps h = Inr h' \<Longrightarrow> p \<in> set ps \<Longrightarrow> h p ''bibcode'' = Some b \<Longrightarrow>
   h' p ''ads_url'' = Some (PStr (ads_url b))"
proof (induction ps arbitrary: h)
  case Nil
  then show ?case by simp
next
  case (Cons q ps)
  from Cons.prems obtain c where c: "h q ''bibcode'' = Some c"
    and rest: "add_ads_urls ps (h(q := (h q)(''ads_url'' \<mapsto> PStr (ads_url c)))) = Inr h'"
    by (auto split: option.splits)
  let ?h = "h(q := (h q)(''ads_url'' \<mapsto> PStr (ads_url c)))"
  have b: "?h p ''bibcode'' = Some b" using Cons.prems(3) by auto
  show ?case
  proof (cases "p \<in> set ps")
    case True
    from Cons.IH[OF rest True b] show ?thesis .
  next
    case False
    with Cons.prems(2) have pq: "p = q" by simp
    from add_ads_urls_untouched[OF rest False] pq c Cons.prems(3) show ?thesis by simp
  qed
qed

lemma add_ads_urls_succeeds:
  "\<forall>p\<in>set ps. h p ''bibcode'' \<noteq> None \<Longrightarrow> \<exists>h'. add_ads_urls ps h = Inr h'"
  by (induction ps arbitrary: h) (auto split: option.splits)

lemma add_refereed_frame:
  "add_refereed ps h = Inr h' \<Longrightarrow> f \<noteq> ''refereed'' \<Longrightarrow> h' x f = h x f"
  by (induction ps arbitrary: h) (auto split: option.splits sum.splits)

lemma add_refereed_untouched:
  "add_refereed ps h = Inr h' \<Longrightarrow> x \<notin> set ps \<Longrightarrow> h' x = h x"
  by (induction ps arbitrary: h) (auto split: option.splits sum.splits)

lemma add_refereed_value:
  "add_refereed ps h = Inr h' \<Longrightarrow> p \<in> set ps \<Longrightarrow> h p ''property'' = Some v \<Longrightarrow>
   \<exists>r. py_in ''REFEREED'' v = Inr r \<and> h' p ''refereed'' = Some (PBool r)"
proof (induction ps arbitrary: h)
  case Nil
  then show ?case by simp
next
  case (Cons q ps)
  from Cons.prems obtain w r where w: "h q ''property'' = Some w"
    and r: "py_in ''REFEREED'' w = Inr r"
    and rest: "add_refereed ps (h(q := (h q)(''refereed'' \<mapsto> PBool r))) = Inr h'"
    by (auto split: option.splits sum.splits)
  let ?h = "h(q := (h q)(''refereed'' \<mapsto> PBool r))"
  have v: "?h p ''property'' = Some v" using Cons.prems(3) by auto
  show ?case
  proof (cases "p \<in> set ps")
    case True
    from Cons.IH[OF rest True v] show ?thesis .
  next
    case False
    with Cons.prems(2) have pq: "p = q" by simp
    from add_refereed_untouched[OF rest False] pq w r Cons.prems(3) show ?thesis by simp
  qed
qed

lemma add_refereed_succeeds:
  "\<forall>p\<in>set ps. \<exists>v r. h p ''property'' = Some v \<and> py_in ''REFEREED'' v = Inr r \<Longrightarrow>
   \<exists>h'. add_refereed ps h = Inr h'"
  by (induction ps arbitrary: h) (auto split: option.splits sum.splits)


subsection \<open>Joining the list values\<close>
lemma join_columns_frame:
  "join_columns cs d = Inr d' \<Longrightarrow> f \<notin> set cs \<Longrightarrow> d' f = d f"
  by (induction cs arbitrary: d) (auto split: option.splits sum.splits if_splits)

lemma join_columns_falsy:
  "join_columns cs d = Inr d' \<Longrightarrow> d f = None \<or> (\<exists>v. d f = Some v \<and> \<not> truthy v) \<Longrightarrow> d' f = d f"
proof (induction cs arbitrary: d)
  case Nil
  then show ?case by simp
next
  case (Cons c0 cs)
  show ?case
  proof (cases "\<exists>v. d c0 = Some v \<and> truthy v")
    case True
    then obtain v where v: "d c0 = Some v" "truthy v" by blast
    with Cons.prems(1) obtain s where rest: "join_columns cs (d(c0 \<mapsto> s)) = Inr d'"
      by (auto split: sum.splits)
    from v Cons.prems(2) have ne: "f \<noteq> c0" by auto
    with Cons.prems(2)
    have "(d(c0 \<mapsto> s)) f = None \<or> (\<exists>v. (d(c0 \<mapsto> s)) f = Some v \<and> \<not> truthy v)" by simp
    from Cons.IH[OF rest this] ne show ?thesis by simp
  next
    case False
    with Cons.prems(1) have rest: "join_columns cs d = Inr d'"
      by (auto split: option.splits)
    from Cons.IH[OF rest Cons.prems(2)] show ?thesis .
  qed
qed

lemma py_join_str: "py_join sep v = Inr s \<Longrightarrow> \<exists>t. s = PStr t"
  by (cases v) auto

lemma join_columns_no_list_preserved:
  "join_columns cs d = Inr d' \<Longrightarrow> \<forall>xs. d c = Some (PList xs) \<longrightarrow> xs = [] \<Longrightarrow>
   \<forall>xs. d' c = Some (PList xs) \<longrightarrow> xs = []"
proof (induction cs arbitrary: d)
  case Nil
  then show ?case by simp
next
  case (Cons c0 cs)
  show ?case
  proof (cases "\<exists>v. d c0 = Some v \<and> truthy v")
    case True
    then obtain v where v: "d c0 = Some v" "truthy v" by blast
    with Cons.prems(1) obtain s where s: "py_join '', '' v = Inr s"
      and rest: "join_columns cs (d(c0 \<mapsto> s)) = Inr d'"
      by (auto split: sum.splits)
    from py_join_str[OF s] obtain t where "s = PStr t" by blast
    with Cons.prems(2) have "\<forall>xs. (d(c0 \<mapsto> s)) c = Some (PList xs) \<longrightarrow> xs = []" by simp
    from Cons.IH[OF rest this] show ?thesis .
  next
    case False
    with Cons.prems(1) have rest: "join_columns cs d = Inr d'"
      by (auto split: option.splits)
    from Cons.IH[OF rest Cons.prems(2)] show ?thesis .
  qed
qed

lemma join_columns_no_list:
  "join_columns cs d = Inr d' \<Longrightarrow> c \<in> set cs \<Longrightarrow> \<forall>xs. d' c = Some (PList xs) \<longrightarrow> xs = []"
proof (induction cs arbitrary: d)
  case Nil
  then show ?case by simp
next
  case (Cons c0 cs)
  show ?case
  proof (cases "\<exists>v. d c0 = Some v \<and> truthy v")
    case True
    then obtain v where v: "d c0 = Some v" "truthy v" by blast
    with Cons.prems(1) obtain s where s: "py_join '', '' v = Inr s"
      and rest: "join_columns cs (d(c0 \<mapsto> s)) = Inr d'"
      by (auto split: sum.splits)
    from py_join_str[OF s] obtain t where t: "s = PStr t" by blast
    show ?thesis
    proof (cases "c = c0")
      case True
      with t have "\<forall>xs. (d(c0 \<mapsto> s)) c = Some (PList xs) \<longrightarrow> xs = []" by simp
      from join_columns_no_list_preserved[OF rest this] show ?thesis .
    next
      case False
      with Cons.prems(2) have "c \<in> set cs" by simp
      from Cons.IH[OF rest this] show ?thesis .
    qed
  next
    case False
    with Cons.prems(1) have rest: "join_columns cs d = Inr d'"
      by (auto split: option.splits)
    show ?thesis
    proof (cases "c = c0")
      case True
      with False have "\<forall>xs. d c = Some (PList xs) \<longrightarrow> xs = []" by auto
      from join_columns_no_list_preserved[OF rest this] show ?thesis .
    next
      case c: False
      with Cons.prems(2) have "c \<in> set cs" by simp
      from Cons.IH[OF rest this] show ?thesis .
    qed
  qed
qed

lemma join_columns_value:
  "join_columns cs d = Inr d' \<Longrightarrow> c \<in> set cs \<Longrightarrow> distinct cs \<Longrightarrow>
   d c = Some (PList xs) \<Longrightarrow> xs \<noteq> [] \<Longrightarrow> d' c = Some (PStr (join '', '' xs))"
proof (induction cs arbitrary: d)
  case Nil
  then show ?case by simp
next
  case (Cons c0 cs)
  show ?case
  proof (cases "c = c0")
    case True
    with Cons.prems have rest: "join_columns cs (d(c0 \<mapsto> PStr (join '', '' xs))) = Inr d'"
      by simp
    from Cons.prems True have "c \<notin> set cs" by simp
    from join_columns_frame[OF rest this] True show ?thesis by simp
  next
    case False
    with Cons.prems(2,3) have c: "c \<in> set cs" "distinct cs" by simp_all
    show ?thesis
    proof (cases "\<exists>v. d c0 = Some v \<and> truthy v")
      case True
      then obtain v where v: "d c0 = Some v" "truthy v" by blast
      with Cons.prems(1) obtain s where rest: "join_columns cs (d(c0 \<mapsto> s)) = Inr d'"
        by (auto split: sum.splits)
      from False Cons.prems(4) have "(d(c0 \<mapsto> s)) c = Some (PList xs)" by simp
      from Cons.IH[OF rest c this Cons.prems(5)] show ?thesis .
    next
      case F: False
      with Cons.prems(1) have rest: "join_columns cs d = Inr d'"
        by (auto split: option.splits)
      from Cons.IH[OF rest c Cons.prems(4,5)] show ?thesis .
    qed
  qed
qed

lemma join_list_values_frame:
  "join_list_values ps h = Inr h' \<Longrightarrow> f \<notin> set list_value_columns \<Longrightarrow> h' x f = h x f"
  by (induction ps arbitrary: h) (auto split: sum.splits dest: join_columns_frame)

lemma join_list_values_falsy:
  "join_list_values ps h = Inr h' \<Longrightarrow>
   h x f = None \<or> (\<exists>v. h x f = Some v \<and> \<not> truthy v) \<Longrightarrow> h' x f = h x f"
proof (induction ps arbitrary: h)
  case Nil
  then show ?case by simp
next
  case (Cons p ps)
  from Cons.prems(1) obtain d where d: "join_columns list_value_columns (h p) = Inr d"
    and rest: "join_list_values ps (h(p := d)) = Inr h'"
    by (auto split: sum.splits)
  have eq: "(h(p := d)) x f = h x f"
    using join_columns_falsy[OF d, of f] Cons.prems(2) by auto
  with Cons.prems(2) have "(h(p := d)) x f = None \<or> (\<exists>v. (h(p := d)) x f = Some v \<and> \<not> truthy v)"
    by simp
  from Cons.IH[OF rest this] eq show ?case by simp
qed

lemma join_list_values_untouched:
  "join_list_values ps h = Inr h' \<Longrightarrow> x \<notin> set ps \<Longrightarrow> h' x = h x"
  by (induction ps arbitrary: h) (auto split: sum.splits)

lemma join_list_values_no_list_preserved:
  "join_list_values ps h = Inr h' \<Longrightarrow> \<forall>xs. h x c = Some (PList xs) \<longrightarrow> xs = [] \<Longrightarrow>
   \<forall>xs. h' x c = Some (PList xs) \<longrightarrow> xs = []"
proof (induction ps arbitrary: h)
  case Nil
  then show ?case by simp
next
  case (Cons p ps)
  from Cons.prems(1) obtain d where d: "join_columns list_value_columns (h p) = Inr d"
    and rest: "join_list_values ps (h(p := d)) = Inr h'"
    by (auto split: sum.splits)
  have "\<forall>xs. (h(p := d)) x c = Some (PList xs) \<longrightarrow> xs = []"
  proof (cases "x = p")
    case True
    with join_columns_no_list_preserved[OF d, of c] Cons.prems(2) show ?thesis by simp
  next
    case False
    with Cons.prems(2) show ?thesis by simp
  qed
  from Cons.IH[OF rest this] show ?case .
qed

lemma join_list_values_no_list:
  "join_list_values ps h = Inr h' \<Longrightarrow> p \<in> set ps \<Longrightarrow> c \<in> set list_value_columns \<Longrightarrow>
   \<forall>xs. h' p c = Some (PList xs) \<longrightarrow> xs = []"
proof (induction ps arbitrary: h)
  case Nil
  then show ?case by simp
next
  case (Cons q ps)
  from Cons.prems(1) obtain d where d: "join_columns list_value_columns (h q) = Inr d"
    and rest: "join_list_values ps (h(q := d)) = Inr h'"
    by (auto split: sum.splits)
  show ?case
  proof (cases "p = q")
    case True
    have "\<forall>xs. (h(q := d)) p c = Some (PList xs) \<longrightarrow> xs = []"
      using join_columns_no_list[OF d Cons.prems(3)] True by simp
    from join_list_values_no_list_preserved[OF rest this] show ?thesis .
  next
    case False
    with Cons.prems(2) have "p \<in> set ps" by simp
    from Cons.IH[OF rest this Cons.prems(3)] show ?thesis .
  qed
qed

lemma join_list_values_value:
  "join_list_values ps h = Inr h' \<Longrightarrow> count_list ps p = 1 \<Longrightarrow>
   c \<in> set list_value_columns \<Longrightarrow> h p c = Some (PList xs) \<Longrightarrow> xs \<noteq> [] \<Longrightarrow>
   h' p c = Some (PStr (join '', '' xs))"
proof (induction ps arbitrary: h)
  case Nil
  then show ?case by simp
next
  case (Cons q ps)
  from Cons.prems(1) obtain d where d: "join_columns list_value_columns (h q) = Inr d"
    and rest: "join_list_values ps (h(q := d)) = Inr h'"
    by (auto split: sum.splits)
  show ?case
  proof (cases "p = q")
    case True
    have dist: "distinct list_value_columns" by (simp add: list_value_columns_def)
    from Cons.prems(4) True have "h q c = Some (PList xs)" by simp
    from join_columns_value[OF d Cons.prems(3) dist this Cons.prems(5)]
    have v: "d c = Some (PStr (join '', '' xs))" .
    from Cons.prems(2) True have "count_list ps p = 0" by simp
    then have "p \<notin> set ps" by (simp add: count_list_0_iff)
    from join_list_values_untouched[OF rest this] v True show ?thesis by simp
  next
    case False
    with Cons.prems(2) have p: "count_list ps p = 1" by simp
    from False Cons.prems(4) have "(h(q := d)) p c = Some (PList xs)" by simp
    from Cons.IH[OF rest p Cons.prems(3) this Cons.prems(5)] show ?thesis .
  qed
qed

lemma joinable_PStr: "joinable (Some (PStr s))"
  by (simp add: joinable_def)

lemma joinable_py_join: "py_join sep v = Inr s \<Longrightarrow> joinable (Some s)"
  by (cases v) (auto simp: joinable_def)

lemma join_columns_joinable_preserved:
  "join_columns cs d = Inr d' \<Longrightarrow> joinable (d c) \<Longrightarrow> joinable (d' c)"
proof (induction cs arbitrary: d)
  case Nil
  then show ?case by simp
next
  case (Cons c0 cs)
  show ?case
  proof (cases "\<exists>v. d c0 = Some v \<and> truthy v")
    case True
    then obtain v where v: "d c0 = Some v" "truthy v" by blast
    with Cons.prems(1) obtain s where s: "py_join '', '' v = Inr s"
      and rest: "join_columns cs (d(c0 \<mapsto> s)) = Inr d'"
      by (auto split: sum.splits)
    have "joinable ((d(c0 \<mapsto> s)) c)"
      using joinable_py_join[OF s] Cons.prems(2) by simp
    from Cons.IH[OF rest this] show ?thesis .
  next
    case False
    with Cons.prems(1) have rest: "join_columns cs d = Inr d'"
      by (auto split: option.splits)
    from Cons.IH[OF rest Cons.prems(2)] show ?thesis .
  qed
qed

lemma join_columns_succeeds:
  "\<forall>c\<in>set cs. joinable (d c) \<Longrightarrow> \<exists>d'. join_columns cs d = Inr d'"
proof (induction cs arbitrary: d)
  case Nil
  then show ?case by simp
next
  case (Cons c0 cs)
  show ?case
  proof (cases "\<exists>v. d c0 = Some v \<and> truthy v")
    case True
    then obtain v where v: "d c0 = Some v" "truthy v" by blast
    from Cons.prems v obtain s where s: "py_join '', '' v = Inr s"
      by (auto simp: joinable_def split: sum.splits)
    have "\<forall>c\<in>set cs. joinable ((d(c0 \<mapsto> s)) c)"
      using joinable_py_join[OF s] Cons.prems by simp
    from Cons.IH[OF this] obtain d' where "join_columns cs (d(c0 \<mapsto> s)) = Inr d'" by blast
    with v s show ?thesis by simp
  next
    case False
    from Cons.prems have "\<forall>c\<in>set cs. joinable (d c)" by simp
    from Cons.IH[OF this] False show ?thesis by (auto split: option.splits)
  qed
qed

lemma join_list_values_succeeds:
  "\<forall>p\<in>set ps. \<forall>c\<in>set list_value_columns. joinable (h p c) \<Longrightarrow>
   \<exists>h'. join_list_values ps h = Inr h'"
proof (induction ps arbitrary: h)
  case Nil
  then show ?case by simp
next
  case (Cons q ps)
  from Cons.prems have q: "\<forall>c\<in>set list_value_columns. joinable (h q c)" by simp
  from join_columns_succeeds[OF this] obtain d
    where d: "join_columns list_value_columns (h q) = Inr d" by blast
  have "\<forall>p\<in>set ps. \<forall>c\<in>set list_value_columns. joinable ((h(q := d)) p c)"
  proof (intro ballI)
    fix p c
    assume p: "p \<in> set ps" and c: "c \<in> set list_value_columns"
    show "joinable ((h(q := d)) p c)"
    proof (cases "p = q")
      case True
      from q c have "joinable (h q c)" by blast
      from join_columns_joinable_preserved[OF d this] True show ?thesis by simp
    next
      case False
      with Cons.prems p c show ?thesis by simp
    qed
  qed
  from Cons.IH[OF this] obtain h' where "join_list_values ps (h(q := d)) = Inr h'" by blast
  with d show ?case by simp
qed

subsection \<open>The enrichment as a whole\<close>

lemma enrich_steps:
  assumes "enrich ps h = Inr h'"
  obtains h1 h2 where "add_ads_urls ps h = Inr h1" "add_refereed ps h1 = Inr h2"
    "join_list_values ps h2 = Inr h'"
  using assms by (auto simp: enrich_def split: sum.splits)

lemma enrich_succeeds:
  assumes b: "\<forall>p\<in>set ps. h p ''bibcode'' \<noteq> None"
    and r: "\<forall>p\<in>set ps. \<exists>v r. h p ''property'' = Some v \<and> py_in ''REFEREED'' v = Inr r"
    and j: "\<forall>p\<in>set ps. \<forall>c\<in>set list_value_columns. joinable (h p c)"
  shows "\<exists>h'. enrich ps h = Inr h'"
proof -
  from add_ads_urls_succeeds[of ps h, OF b] obtain h1 where h1: "add_ads_urls ps h = Inr h1" by blast
  have "\<forall>p\<in>set ps. \<exists>v r. h1 p ''property'' = Some v \<and> py_in ''REFEREED'' v = Inr r"
    using r add_ads_urls_frame[OF h1, of "''property''"] by simp
  from add_refereed_succeeds[of ps h1, OF this] obtain h2 where h2: "add_refereed ps h1 = Inr h2" by blast
  have "\<forall>p\<in>set ps. \<forall>c\<in>set list_value_columns. joinable (h2 p c)"
  proof (intro ballI)
    fix p c
    assume p: "p \<in> set ps" and c: "c \<in> set list_value_columns"
    from c have ne: "c \<noteq> ''ads_url''" "c \<noteq> ''refereed''"
      by (auto simp: list_value_columns_def)
    from add_refereed_frame[OF h2 ne(2)] add_ads_urls_frame[OF h1 ne(1)]
    have "h2 p c = h p c" by simp
    with j p c show "joinable (h2 p c)" by simp
  qed
  from join_list_values_succeeds[of ps h2, OF this] obtain h' where "join_list_values ps h2 = Inr h'"
    by blast
  with h1 h2 show ?thesis by (simp add: enrich_def)
qed

text \<open>
  Claim C8. When the enrichment of the publications succeeds, a publication whose record
  has a \<open>bibcode\<close> field ends with its \<open>ads_url\<close> field set to the string
  \<open>https://ui.adsabs.harvard.edu/#abs/\<close>, followed by the bibcode as \<^verbatim>\<open>format\<close> prints it,
  followed by \<open>/abstract\<close>; for a bibcode that is a string, that is the bibcode itself.
\<close>

theorem enrich_ads_url:
  assumes "enrich ps h = Inr h'" and "p \<in> set ps" and "h p ''bibcode'' = Some b"
  shows "h' p ''ads_url''
      = Some (PStr (''https://ui.adsabs.harvard.edu/#abs/'' @ py_str b @ ''/abstract''))
    \<and> (\<forall>s. b = PStr s \<longrightarrow>
        h' p ''ads_url'' = Some (PStr (''https://ui.adsabs.harvard.edu/#abs/'' @ s @ ''/abstract'')))"
proof -
  from assms(1) obtain h1 h2 where h1: "add_ads_urls ps h = Inr h1"
    and h2: "add_refereed ps h1 = Inr h2" and h3: "join_list_values ps h2 = Inr h'"
    by (rule enrich_steps)
  have "h1 p ''ads_url'' = Some (PStr (ads_url b))"
    by (rule add_ads_urls_value[OF h1 assms(2,3)])
  moreover have "h2 p ''ads_url'' = h1 p ''ads_url''"
    by (rule add_refereed_frame[OF h2]) simp
  moreover have "h' p ''ads_url'' = h2 p ''ads_url''"
    by (rule join_list_values_frame[OF h3]) (simp add: list_value_columns_def)
  ultimately have "h' p ''ads_url'' = Some (PStr (ads_url b))" by simp
  then show ?thesis by (auto simp: ads_url_def)
qed

theorem enrich_ads_url_witness:
  "(0::nat) \<in> set [0]
   \<and> ((\<lambda>_. Map.empty)(0 := [''bibcode'' \<mapsto> PStr ''2017MNRAS.1A'', ''property'' \<mapsto> PList []]))
        (0::nat) ''bibcode'' = Some (PStr ''2017MNRAS.1A'')
   \<and> (case enrich [0] ((\<lambda>_. Map.empty)
            (0 := [''bibcode'' \<mapsto> PStr ''2017MNRAS.1A'', ''property'' \<mapsto> PList []])) of
         Inl e \<Rightarrow> None
       | Inr h' \<Rightarrow> h' 0 ''ads_url'')
     = Some (PStr ''https://ui.adsabs.harvard.edu/#abs/2017MNRAS.1A/abstract'')"
proof -
  let ?h = "(\<lambda>_. Map.empty)
    ((0::nat) := [''bibcode'' \<mapsto> PStr ''2017MNRAS.1A'', ''property'' \<mapsto> PList []])"
  obtain h' where e: "enrich [0] ?h = Inr h'"
    by (simp add: enrich_def list_value_columns_def)
  have p: "(0::nat) \<in> set [0]" by simp
  have b: "?h 0 ''bibcode'' = Some (PStr ''2017MNRAS.1A'')" by simp
  from enrich_ads_url[OF e p b]
  have "h' 0 ''ads_url'' = Some (PStr ''https://ui.adsabs.harvard.edu/#abs/2017MNRAS.1A/abstract'')"
    by simp
  with e p b show ?thesis by simp
qed

text \<open>
  Claim C5. When the enrichment succeeds, a publication whose \<open>property\<close> field is a list
  ends with its \<open>refereed\<close> field set to the boolean that tells whether \<open>REFEREED\<close> is an
  element of that list.
\<close>

theorem enrich_refereed:
  assumes "enrich ps h = Inr h'" and "p \<in> set ps" and "h p ''property'' = Some (PList xs)"
  shows "h' p ''refereed'' = Some (PBool (''REFEREED'' \<in> set xs))"
proof -
  from assms(1) obtain h1 h2 where h1: "add_ads_urls ps h = Inr h1"
    and h2: "add_refereed ps h1 = Inr h2" and h3: "join_list_values ps h2 = Inr h'"
    by (rule enrich_steps)
  have "h1 p ''property'' = h p ''property''"
    by (rule add_ads_urls_frame[OF h1]) simp
  with assms(3) have "h1 p ''property'' = Some (PList xs)" by simp
  from add_refereed_value[OF h2 assms(2) this]
  have "h2 p ''refereed'' = Some (PBool (''REFEREED'' \<in> set xs))" by auto
  moreover have "h' p ''refereed'' = h2 p ''refereed''"
    by (rule join_list_values_frame[OF h3]) (simp add: list_value_columns_def)
  ultimately show ?thesis by simp
qed

theorem enrich_refereed_witness:
  "(0::nat) \<in> set [0]
   \<and> (case enrich [0] ((\<lambda>_. Map.empty)
            (0 := [''bibcode'' \<mapsto> PStr ''X'', ''property'' \<mapsto> PList [''ARTICLE'', ''REFEREED'']])) of
         Inl e \<Rightarrow> None
       | Inr h' \<Rightarrow> h' 0 ''refereed'')
     = Some (PBool True)
   \<and> (case enrich [0] ((\<lambda>_. Map.empty)
            (0 := [''bibcode'' \<mapsto> PStr ''X'', ''property'' \<mapsto> PList [''ARTICLE'', ''NOT REFEREED'']])) of
         Inl e \<Rightarrow> None
       | Inr h' \<Rightarrow> h' 0 ''refereed'')
     = Some (PBool False)"
proof -
  let ?h = "(\<lambda>_. Map.empty)
    ((0::nat) := [''bibcode'' \<mapsto> PStr ''X'', ''property'' \<mapsto> PList [''ARTICLE'', ''REFEREED'']])"
  let ?g = "(\<lambda>_. Map.empty)
    ((0::nat) := [''bibcode'' \<mapsto> PStr ''X'', ''property'' \<mapsto> PList [''ARTICLE'', ''NOT REFEREED'']])"
  obtain h' where e: "enrich [0] ?h = Inr h'"
    by (simp add: enrich_def list_value_columns_def)
  obtain g' where f: "enrich [0] ?g = Inr g'"
    by (simp add: enrich_def list_value_columns_def)
  have p: "(0::nat) \<in> set [0]" by simp
  have "?h 0 ''property'' = Some (PList [''ARTICLE'', ''REFEREED''])" by simp
  from enrich_refereed[OF e p this] have 1: "h' 0 ''refereed'' = Some (PBool True)" by simp
  have "?g 0 ''property'' = Some (PList [''ARTICLE'', ''NOT REFEREED''])" by simp
  from enrich_refereed[OF f p this] have 2: "g' 0 ''refereed'' = Some (PBool False)" by simp
  from e f p 1 2 show ?thesis by simp
qed

text \<open>
  Claim C7. The enrichment changes no field other than \<open>ads_url\<close>, \<open>refereed\<close>, \<open>author\<close>,
  \<open>title\<close>, \<open>doi\<close>, \<open>keywords\<close> and \<open>page\<close>, in any record of the store; a field among
  \<open>author\<close>, \<open>title\<close>, \<open>doi\<close>, \<open>keywords\<close> and \<open>page\<close> that is absent or holds an empty
  value (one that counts as false) keeps its state; and a record that is not among the
  publications is not changed at all.
\<close>

theorem enrich_frame:
  assumes "enrich ps h = Inr h'"
  shows "(\<forall>x f. f \<notin> {''ads_url'', ''refereed'', ''author'', ''title'', ''doi'', ''keywords'', ''page''}
            \<longrightarrow> h' x f = h x f)
    \<and> (\<forall>x f. f \<in> {''author'', ''title'', ''doi'', ''keywords'', ''page''}
            \<longrightarrow> h x f = None \<or> (\<exists>v. h x f = Some v \<and> \<not> truthy v)
            \<longrightarrow> h' x f = h x f)
    \<and> (\<forall>x. x \<notin> set ps \<longrightarrow> h' x = h x)"
proof -
  from assms(1) obtain h1 h2 where h1: "add_ads_urls ps h = Inr h1"
    and h2: "add_refereed ps h1 = Inr h2" and h3: "join_list_values ps h2 = Inr h'"
    by (rule enrich_steps)
  have a: "h' x f = h x f"
    if "f \<notin> {''ads_url'', ''refereed'', ''author'', ''title'', ''doi'', ''keywords'', ''page''}"
    for x f
  proof -
    from that have f: "f \<noteq> ''ads_url''" "f \<noteq> ''refereed''" "f \<notin> set list_value_columns"
      by (simp_all add: list_value_columns_def)
    from join_list_values_frame[OF h3 f(3)] add_refereed_frame[OF h2 f(2)]
      add_ads_urls_frame[OF h1 f(1)]
    show ?thesis by simp
  qed
  have b: "h' x f = h x f"
    if "f \<in> {''author'', ''title'', ''doi'', ''keywords'', ''page''}"
      and "h x f = None \<or> (\<exists>v. h x f = Some v \<and> \<not> truthy v)"
    for x f
  proof -
    from that(1) have f: "f \<noteq> ''ads_url''" "f \<noteq> ''refereed''" by auto
    from add_refereed_frame[OF h2 f(2)] add_ads_urls_frame[OF h1 f(1)]
    have eq: "h2 x f = h x f" by simp
    with that(2) have "h2 x f = None \<or> (\<exists>v. h2 x f = Some v \<and> \<not> truthy v)" by simp
    from join_list_values_falsy[OF h3 this] eq show ?thesis by simp
  qed
  have c: "h' x = h x" if "x \<notin> set ps" for x
    using join_list_values_untouched[OF h3 that] add_refereed_untouched[OF h2 that]
      add_ads_urls_untouched[OF h1 that] by simp
  show ?thesis
  proof (intro conjI allI impI)
    fix x f
    assume "f \<notin> {''ads_url'', ''refereed'', ''author'', ''title'', ''doi'', ''keywords'', ''page''}"
    then show "h' x f = h x f" by (rule a)
  next
    fix x f
    assume "f \<in> {''author'', ''title'', ''doi'', ''keywords'', ''page''}"
      and "h x f = None \<or> (\<exists>v. h x f = Some v \<and> \<not> truthy v)"
    then show "h' x f = h x f" by (rule b)
  next
    fix x
    assume "x \<notin> set ps"
    then show "h' x = h x" by (rule c)
  qed
qed

theorem enrich_frame_witness:
  "(case enrich [0] ((\<lambda>_. Map.empty)
        (0 := [''bibcode'' \<mapsto> PStr ''X'', ''property'' \<mapsto> PList [], ''author'' \<mapsto> PList [],
               ''title'' \<mapsto> PList [''T'']],
         1 := [''title'' \<mapsto> PList [''U'']])) of
      Inl e \<Rightarrow> []
    | Inr h' \<Rightarrow> [h' 0 ''bibcode'', h' 0 ''property'', h' 0 ''author'', h' 0 ''doi'', h' 1 ''title''])
   = [Some (PStr ''X''), Some (PList []), Some (PList []), None, Some (PList [''U''])]"
proof -
  let ?h = "(\<lambda>_. Map.empty)
     ((0::nat) := [''bibcode'' \<mapsto> PStr ''X'', ''property'' \<mapsto> PList [], ''author'' \<mapsto> PList [],
               ''title'' \<mapsto> PList [''T'']],
      1 := [''title'' \<mapsto> PList [''U'']])"
  obtain h' where e: "enrich [0] ?h = Inr h'"
    by (simp add: enrich_def list_value_columns_def)
  note fr = enrich_frame[OF e]
  from fr have a: "h' 0 ''bibcode'' = ?h 0 ''bibcode''" "h' 0 ''property'' = ?h 0 ''property''"
    by simp_all
  from fr have "?h 0 ''author'' = None \<or> (\<exists>v. ?h 0 ''author'' = Some v \<and> \<not> truthy v)
      \<longrightarrow> h' 0 ''author'' = ?h 0 ''author''" by simp
  then have b: "h' 0 ''author'' = Some (PList [])" by simp
  from fr have "?h 0 ''doi'' = None \<or> (\<exists>v. ?h 0 ''doi'' = Some v \<and> \<not> truthy v)
      \<longrightarrow> h' 0 ''doi'' = ?h 0 ''doi''" by simp
  then have c: "h' 0 ''doi'' = None" by simp
  from fr have "(1::nat) \<notin> set [0] \<longrightarrow> h' 1 = ?h 1" by blast
  then have d: "h' 1 ''title'' = Some (PList [''U''])" by simp
  from a b c d e show ?thesis by simp
qed

text \<open>
  Claim C6, as amended. The join applies to the fields \<open>author\<close>, \<open>title\<close>, \<open>doi\<close>,
  \<open>keywords\<close> and \<open>page\<close>, and to a value that counts as true: when the enrichment
  succeeds, none of these five fields of a publication holds a non-empty list, and for a
  publication that occurs once in the list a non-empty list of strings in one of them has
  been replaced by its elements joined with a comma and a space.
\<close>

theorem enrich_joins_list_values:
  assumes "enrich ps h = Inr h'" and "p \<in> set ps" and "c \<in> set list_value_columns"
  shows "(\<forall>xs. h' p c = Some (PList xs) \<longrightarrow> xs = [])
    \<and> (\<forall>xs. count_list ps p = 1 \<longrightarrow> h p c = Some (PList xs) \<longrightarrow> xs \<noteq> []
          \<longrightarrow> h' p c = Some (PStr (join '', '' xs)))"
proof -
  from assms(1) obtain h1 h2 where h1: "add_ads_urls ps h = Inr h1"
    and h2: "add_refereed ps h1 = Inr h2" and h3: "join_list_values ps h2 = Inr h'"
    by (rule enrich_steps)
  from assms(3) have ne: "c \<noteq> ''ads_url''" "c \<noteq> ''refereed''"
    by (auto simp: list_value_columns_def)
  from add_refereed_frame[OF h2 ne(2)] add_ads_urls_frame[OF h1 ne(1)]
  have eq: "h2 p c = h p c" by simp
  have a: "\<forall>xs. h' p c = Some (PList xs) \<longrightarrow> xs = []"
    by (rule join_list_values_no_list[OF h3 assms(2,3)])
  have b: "h' p c = Some (PStr (join '', '' xs))"
    if "count_list ps p = 1" "h p c = Some (PList xs)" "xs \<noteq> []" for xs
    using join_list_values_value[OF h3 that(1) assms(3) _ that(3)] eq that(2) by simp
  from a b show ?thesis by blast
qed

theorem enrich_joins_list_values_witness:
  "(1::nat) \<in> set [0, 1, 0] \<and> ''author'' \<in> set list_value_columns
   \<and> count_list [0, 1, 0] (1::nat) = 1
   \<and> (case enrich [0, 1, 0] ((\<lambda>_. Map.empty)
        (0 := [''bibcode'' \<mapsto> PStr ''W'', ''property'' \<mapsto> PList []],
         1 := [''bibcode'' \<mapsto> PStr ''X'', ''property'' \<mapsto> PList [],
               ''author'' \<mapsto> PList [''Doe, J.'', ''Roe, R.'']])) of
      Inl e \<Rightarrow> None
    | Inr h' \<Rightarrow> h' 1 ''author'')
   = Some (PStr ''Doe, J., Roe, R.'')"
proof -
  let ?h = "(\<lambda>_. Map.empty)
     ((0::nat) := [''bibcode'' \<mapsto> PStr ''W'', ''property'' \<mapsto> PList []],
      1 := [''bibcode'' \<mapsto> PStr ''X'', ''property'' \<mapsto> PList [],
               ''author'' \<mapsto> PList [''Doe, J.'', ''Roe, R.'']])"
  obtain h' where e: "enrich [0, 1, 0] ?h = Inr h'"
    by (simp add: enrich_def list_value_columns_def)
  have p: "(1::nat) \<in> set [0, 1, 0]" by simp
  have c: "''author'' \<in> set list_value_columns" by (simp add: list_value_columns_def)
  have n: "count_list [0, 1, 0] (1::nat) = 1" by simp
  from enrich_joins_list_values[OF e p c]
  have "count_list [0, 1, 0] (1::nat) = 1
     \<longrightarrow> ?h 1 ''author'' = Some (PList [''Doe, J.'', ''Roe, R.''])
     \<longrightarrow> [''Doe, J.'', ''Roe, R.''] \<noteq> []
     \<longrightarrow> h' 1 ''author'' = Some (PStr (join '', '' [''Doe, J.'', ''Roe, R.'']))" by blast
  with n have "h' 1 ''author'' = Some (PStr ''Doe, J., Roe, R.'')" by simp
  with e p c n show ?thesis by simp
qed

text \<open>
  Claim C6 as stated fails: after a successful enrichment the record still holds a list in
  two fields that are columns of the spreadsheet, the empty list in \<open>author\<close> and the list
  of one telescope in \<open>telescopes\<close>. The rendering of that record then raises
  \<^verbatim>\<open>TypeError\<close>.
\<close>

theorem enrich_list_values_counterexample:
  "(case enrich [0] ((\<lambda>_. Map.empty)
        (0 := [''bibcode'' \<mapsto> PStr ''X'', ''property'' \<mapsto> PList [], ''author'' \<mapsto> PList [],
               ''telescopes'' \<mapsto> PList [''SALT'']])) of
      Inl e \<Rightarrow> []
    | Inr h' \<Rightarrow> [h' 0 ''author'', h' 0 ''telescopes''])
   = [Some (PList []), Some (PList [''SALT''])]
   \<and> ''author'' \<in> set (map fst spreadsheet_columns)
   \<and> ''telescopes'' \<in> set (map fst spreadsheet_columns)
   \<and> (case enrich [0] ((\<lambda>_. Map.empty)
        (0 := [''bibcode'' \<mapsto> PStr ''X'', ''property'' \<mapsto> PList [], ''author'' \<mapsto> PList [],
               ''telescopes'' \<mapsto> PList [''SALT'']])) of
      Inl e \<Rightarrow> Inl e
    | Inr h' \<Rightarrow> publications_spreadsheet h' [0] (map fst spreadsheet_columns))
   = Inl TypeError"
  by (simp add: enrich_def list_value_columns_def spreadsheet_columns_def dict_get_def)

subsection \<open>Sorting\<close>

lemma orderable_trans: "orderable a b \<Longrightarrow> orderable a c \<Longrightarrow> orderable b c"
  by (cases a; cases b; cases c) (simp_all add: orderable_def)

lemma orderable_sym: "orderable a b \<Longrightarrow> orderable b a"
  by (cases a; cases b) (simp_all add: orderable_def)

lemma lt_asym: "lt a b \<Longrightarrow> \<not> lt b a"
  by (cases a; cases b) (auto simp: lt_def)

lemma not_lt_trans:
  "orderable a b \<Longrightarrow> orderable b c \<Longrightarrow> \<not> lt b a \<Longrightarrow> \<not> lt c b \<Longrightarrow> \<not> lt c a"
  by (cases a; cases b; cases c) (auto simp: lt_def orderable_def split: if_splits)

lemma mset_insort_lt: "mset (insort_lt x ys) = add_mset x (mset ys)"
  by (induction ys) auto

lemma mset_foldr_insort_lt: "mset (foldr insort_lt kxs []) = mset kxs"
  by (induction kxs) (auto simp: mset_insort_lt)

lemma set_insort_lt: "set (insort_lt x ys) = insert x (set ys)"
  by (induction ys) auto

lemma sorted_insort_lt:
  assumes "sorted_wrt (\<lambda>x y. \<not> lt (fst y) (fst x)) ys"
    and "\<forall>y\<in>set ys. orderable (fst x) (fst y) \<and> orderable (fst y) (fst x)"
    and "\<forall>y\<in>set ys. \<forall>z\<in>set ys. orderable (fst y) (fst z)"
  shows "sorted_wrt (\<lambda>x y. \<not> lt (fst y) (fst x)) (insort_lt x ys)"
  using assms
proof (induction ys)
  case Nil
  then show ?case by simp
next
  case (Cons y ys)
  show ?case
  proof (cases "lt (fst y) (fst x)")
    case True
    from Cons.prems have "sorted_wrt (\<lambda>x y. \<not> lt (fst y) (fst x)) (insort_lt x ys)"
      by (intro Cons.IH) auto
    moreover from True have "\<not> lt (fst x) (fst y)" by (rule lt_asym)
    moreover from Cons.prems(1) have "\<forall>z\<in>set ys. \<not> lt (fst z) (fst y)" by simp
    ultimately show ?thesis using True by (simp add: set_insort_lt)
  next
    case False
    have "\<not> lt (fst z) (fst x)" if "z \<in> set ys" for z
    proof -
      from Cons.prems(1) that have "\<not> lt (fst z) (fst y)" by simp
      moreover from Cons.prems(2) have "orderable (fst x) (fst y)" by simp
      moreover from Cons.prems(3) that have "orderable (fst y) (fst z)" by simp
      ultimately show ?thesis using False not_lt_trans by blast
    qed
    with False Cons.prems(1) show ?thesis by simp
  qed
qed

lemma sorted_foldr_insort_lt:
  "\<forall>y\<in>set kxs. \<forall>z\<in>set kxs. orderable (fst y) (fst z) \<Longrightarrow>
   sorted_wrt (\<lambda>x y. \<not> lt (fst y) (fst x)) (foldr insort_lt kxs [])"
proof (induction kxs)
  case Nil
  then show ?case by simp
next
  case (Cons x kxs)
  have s: "set (foldr insort_lt kxs []) = set kxs"
    using mset_foldr_insort_lt[of kxs] by (metis set_mset_mset)
  from Cons.prems have "sorted_wrt (\<lambda>x y. \<not> lt (fst y) (fst x)) (foldr insort_lt kxs [])"
    by (intro Cons.IH) auto
  moreover from Cons.prems s
  have "\<forall>y\<in>set (foldr insort_lt kxs []). orderable (fst x) (fst y) \<and> orderable (fst y) (fst x)"
    by auto
  moreover from Cons.prems s
  have "\<forall>y\<in>set (foldr insort_lt kxs []). \<forall>z\<in>set (foldr insort_lt kxs []). orderable (fst y) (fst z)"
    by auto
  ultimately show ?case by (simp add: sorted_insort_lt)
qed

lemma sorted_short: "length xs \<le> 1 \<Longrightarrow> sorted_wrt P xs"
  by (cases xs) auto

lemma py_sort_result:
  assumes "py_sort kxs = Inr qs"
  shows "\<exists>sx. qs = map snd sx \<and> mset sx = mset kxs
           \<and> sorted_wrt (\<lambda>x y. \<not> lt (fst y) (fst x)) sx"
proof -
  let ?sx = "foldr insort_lt kxs []"
  have m: "mset ?sx = mset kxs" by (rule mset_foldr_insort_lt)
  from assms have qs: "qs = map snd ?sx"
    by (auto simp: py_sort_def split: if_splits)
  have "sorted_wrt (\<lambda>x y. \<not> lt (fst y) (fst x)) ?sx"
  proof (cases "length kxs \<le> 1")
    case True
    with m have "length ?sx \<le> 1" by (metis size_mset)
    then show ?thesis by (rule sorted_short)
  next
    case False
    with assms have a: "\<forall>kx\<in>set kxs. orderable (fst (hd kxs)) (fst kx)"
      by (auto simp: py_sort_def list_all_iff split: if_splits)
    have "\<forall>y\<in>set kxs. \<forall>z\<in>set kxs. orderable (fst y) (fst z)"
      using a orderable_trans by blast
    then show ?thesis by (rule sorted_foldr_insort_lt)
  qed
  with qs m show ?thesis by blast
qed

lemma py_sort_error:
  assumes "py_sort kxs = Inl e"
  shows "e = TypeError \<and> (\<exists>x\<in>set kxs. \<exists>y\<in>set kxs. \<not> orderable (fst x) (fst y))"
proof -
  from assms have e: "e = TypeError" and l: "\<not> length kxs \<le> 1"
    and n: "\<not> list_all (\<lambda>kx. orderable (fst (hd kxs)) (fst kx)) kxs"
    by (auto simp: py_sort_def split: if_splits)
  from l have "hd kxs \<in> set kxs" by (cases kxs) auto
  with n e show ?thesis by (auto simp: list_all_iff)
qed

lemma sort_keys_result:
  "sort_keys h ps = Inr kps \<Longrightarrow> map snd kps = ps \<and> (\<forall>kp\<in>set kps. h (snd kp) ''bibcode'' = Some (fst kp))"
  by (induction ps arbitrary: kps) (auto split: option.splits sum.splits)

lemma sort_keys_succeeds:
  "\<forall>p\<in>set ps. \<exists>k. h p ''bibcode'' = Some k \<Longrightarrow> \<exists>kps. sort_keys h ps = Inr kps"
  by (induction ps) (auto split: option.splits sum.splits)

lemma sort_publications_mset:
  assumes "sort_publications h ps = Inr qs"
  shows "mset qs = mset ps"
proof -
  from assms obtain kps where k: "sort_keys h ps = Inr kps" and s: "py_sort kps = Inr qs"
    by (auto simp: sort_publications_def split: sum.splits)
  from py_sort_result[OF s] obtain sx where sx: "qs = map snd sx" "mset sx = mset kps"
    by blast
  from sx have "mset qs = image_mset snd (mset kps)" by (metis mset_map)
  also have "\<dots> = mset (map snd kps)" by simp
  also from sort_keys_result[OF k] have "\<dots> = mset ps" by simp
  finally show ?thesis .
qed

lemma sort_publications_sorted:
  assumes "sort_publications h ps = Inr qs"
  shows "sorted_wrt (\<lambda>p q. \<exists>a b. h p ''bibcode'' = Some a \<and> h q ''bibcode'' = Some b \<and> \<not> lt b a) qs"
proof -
  from assms obtain kps where k: "sort_keys h ps = Inr kps" and s: "py_sort kps = Inr qs"
    by (auto simp: sort_publications_def split: sum.splits)
  from py_sort_result[OF s] obtain sx where sx: "qs = map snd sx" "mset sx = mset kps"
    "sorted_wrt (\<lambda>x y. \<not> lt (fst y) (fst x)) sx"
    by blast
  from sx(2) have "set sx = set kps" by (metis set_mset_mset)
  with sort_keys_result[OF k]
  have keys: "\<forall>kp\<in>set sx. h (snd kp) ''bibcode'' = Some (fst kp)" by simp
  have "sorted_wrt (\<lambda>x y. \<exists>a b. h (snd x) ''bibcode'' = Some a \<and> h (snd y) ''bibcode'' = Some b
      \<and> \<not> lt b a) sx"
    using sx(3)
  proof (rule sorted_wrt_mono_rel[rotated])
    fix x y
    assume "x \<in> set sx" "y \<in> set sx" "\<not> lt (fst y) (fst x)"
    with keys show "\<exists>a b. h (snd x) ''bibcode'' = Some a \<and> h (snd y) ''bibcode'' = Some b \<and> \<not> lt b a"
      by auto
  qed
  with sx(1) show ?thesis by (simp add: sorted_wrt_map)
qed

lemma sort_publications_error:
  assumes "sort_publications h ps = Inl e" and "\<forall>p\<in>set ps. \<exists>k. h p ''bibcode'' = Some k"
  shows "e = TypeError \<and> (\<exists>p\<in>set ps. \<exists>q\<in>set ps. \<exists>a b.
           h p ''bibcode'' = Some a \<and> h q ''bibcode'' = Some b \<and> \<not> orderable a b)"
proof -
  from sort_keys_succeeds[of ps h, OF assms(2)] obtain kps where k: "sort_keys h ps = Inr kps"
    by blast
  with assms(1) have s: "py_sort kps = Inl e" by (simp add: sort_publications_def)
  from py_sort_error[OF s] obtain x y where xy: "e = TypeError" "x \<in> set kps" "y \<in> set kps"
    "\<not> orderable (fst x) (fst y)" by blast
  from sort_keys_result[OF k] have ps: "map snd kps = ps"
    and keys: "\<forall>kp\<in>set kps. h (snd kp) ''bibcode'' = Some (fst kp)" by simp_all
  from xy(2,3) ps have "snd x \<in> set ps" "snd y \<in> set ps" by force+
  moreover from keys xy(2,3) have "h (snd x) ''bibcode'' = Some (fst x)"
    "h (snd y) ''bibcode'' = Some (fst y)" by simp_all
  ultimately show ?thesis using xy(1,4) by blast
qed

lemma sort_publications_strings:
  assumes "\<forall>p\<in>set ps. \<exists>s. h p ''bibcode'' = Some (PStr s)"
  shows "\<exists>qs. sort_publications h ps = Inr qs"
proof (cases "sort_publications h ps")
  case (Inl e)
  from assms have "\<forall>p\<in>set ps. \<exists>k. h p ''bibcode'' = Some k" by blast
  from sort_publications_error[OF Inl this] obtain p q a b where p: "p \<in> set ps"
    and q: "q \<in> set ps" and a: "h p ''bibcode'' = Some a" and b: "h q ''bibcode'' = Some b"
    and n: "\<not> orderable a b" by blast
  from assms p obtain s where "h p ''bibcode'' = Some (PStr s)" by blast
  with a have as: "a = PStr s" by simp
  from assms q obtain t where "h q ''bibcode'' = Some (PStr t)" by blast
  with b have bt: "b = PStr t" by simp
  from n as bt have False by (simp add: orderable_def)
  then show ?thesis ..
next
  case (Inr qs)
  then show ?thesis by blast
qed

text \<open>
  Claim C4. When every record of the flattened list has a \<open>bibcode\<close> field, the sort either
  raises \<^verbatim>\<open>TypeError\<close>, because two of the bibcodes are not ordered by \<^verbatim>\<open><\<close>, or it leaves a
  list that is a permutation of the flattened list and is in non-decreasing order of the
  \<open>bibcode\<close> field: no later bibcode is less than an earlier one. When all bibcodes are
  strings the sort succeeds, and the bibcodes are in non-decreasing lexicographic order.
\<close>

theorem sort_publications_sorted_permutation:
  assumes "\<forall>p\<in>set ps. \<exists>k. h p ''bibcode'' = Some k"
  shows "(case sort_publications h ps of
            Inl e \<Rightarrow> e = TypeError \<and> (\<exists>p\<in>set ps. \<exists>q\<in>set ps. \<exists>a b.
                h p ''bibcode'' = Some a \<and> h q ''bibcode'' = Some b \<and> \<not> orderable a b)
          | Inr qs \<Rightarrow> mset qs = mset ps
              \<and> sorted_wrt (\<lambda>p q. \<exists>a b. h p ''bibcode'' = Some a \<and> h q ''bibcode'' = Some b
                    \<and> \<not> lt b a) qs)
    \<and> ((\<forall>p\<in>set ps. \<exists>s. h p ''bibcode'' = Some (PStr s)) \<longrightarrow>
        (\<exists>qs. sort_publications h ps = Inr qs \<and> mset qs = mset ps
           \<and> sorted_wrt (\<lambda>p q. \<exists>s t. h p ''bibcode'' = Some (PStr s)
                  \<and> h q ''bibcode'' = Some (PStr t) \<and> s \<le> t) qs))"
proof (rule conjI)
  show "case sort_publications h ps of
            Inl e \<Rightarrow> e = TypeError \<and> (\<exists>p\<in>set ps. \<exists>q\<in>set ps. \<exists>a b.
                h p ''bibcode'' = Some a \<and> h q ''bibcode'' = Some b \<and> \<not> orderable a b)
          | Inr qs \<Rightarrow> mset qs = mset ps
              \<and> sorted_wrt (\<lambda>p q. \<exists>a b. h p ''bibcode'' = Some a \<and> h q ''bibcode'' = Some b
                    \<and> \<not> lt b a) qs"
  proof (cases "sort_publications h ps")
    case (Inl e)
    from sort_publications_error[OF Inl assms] Inl show ?thesis by simp
  next
    case (Inr qs)
    from sort_publications_mset[OF Inr] sort_publications_sorted[OF Inr] Inr
    show ?thesis by simp
  qed
next
  show "(\<forall>p\<in>set ps. \<exists>s. h p ''bibcode'' = Some (PStr s)) \<longrightarrow>
        (\<exists>qs. sort_publications h ps = Inr qs \<and> mset qs = mset ps
           \<and> sorted_wrt (\<lambda>p q. \<exists>s t. h p ''bibcode'' = Some (PStr s)
                  \<and> h q ''bibcode'' = Some (PStr t) \<and> s \<le> t) qs)"
  proof
    assume str: "\<forall>p\<in>set ps. \<exists>s. h p ''bibcode'' = Some (PStr s)"
    from sort_publications_strings[of ps h, OF str] obtain qs where qs: "sort_publications h ps = Inr qs"
      by blast
    have m: "mset qs = mset ps" by (rule sort_publications_mset[OF qs])
    then have set: "set qs = set ps" by (metis set_mset_mset)
    have "sorted_wrt (\<lambda>p q. \<exists>s t. h p ''bibcode'' = Some (PStr s)
                  \<and> h q ''bibcode'' = Some (PStr t) \<and> s \<le> t) qs"
      using sort_publications_sorted[OF qs]
    proof (rule sorted_wrt_mono_rel[rotated])
      fix p q
      assume p: "p \<in> set qs" and q: "q \<in> set qs"
        and le: "\<exists>a b. h p ''bibcode'' = Some a \<and> h q ''bibcode'' = Some b \<and> \<not> lt b a"
      from p q set str obtain s t where st: "h p ''bibcode'' = Some (PStr s)"
        "h q ''bibcode'' = Some (PStr t)" by blast
      with le have "\<not> lt (PStr t) (PStr s)" by auto
      then have "s \<le> t" by (simp add: lt_def)
      with st show "\<exists>s t. h p ''bibcode'' = Some (PStr s)
                  \<and> h q ''bibcode'' = Some (PStr t) \<and> s \<le> t" by blast
    qed
    with qs m show "\<exists>qs. sort_publications h ps = Inr qs \<and> mset qs = mset ps
           \<and> sorted_wrt (\<lambda>p q. \<exists>s t. h p ''bibcode'' = Some (PStr s)
                  \<and> h q ''bibcode'' = Some (PStr t) \<and> s \<le> t) qs" by blast
  qed
qed

theorem sort_publications_sorted_permutation_witness:
  "sort_publications
     ((\<lambda>_. Map.empty)(0 := [''bibcode'' \<mapsto> PStr ''2017B''], 1 := [''bibcode'' \<mapsto> PStr ''2016C''],
        2 := [''bibcode'' \<mapsto> PStr ''2017A'']))
     (flatten (merge_results [(''2017B'', 0), (''2016C'', 1)] [(''2017A'', 2)]))
   = Inr [1, 2, 0]
   \<and> mset [1, 2, 0::nat] = mset (flatten (merge_results [(''2017B'', 0), (''2016C'', 1)] [(''2017A'', 2)]))
   \<and> ''2016C'' \<le> ''2017A'' \<and> ''2017A'' \<le> ''2017B''"
proof -
  let ?h = "(\<lambda>_. Map.empty)((0::nat) := [''bibcode'' \<mapsto> PStr ''2017B''],
      1 := [''bibcode'' \<mapsto> PStr ''2016C''], 2 := [''bibcode'' \<mapsto> PStr ''2017A''])"
  let ?ps = "flatten (merge_results [(''2017B'', 0), (''2016C'', 1)] [(''2017A'', 2)])"
  have ps: "?ps = [0, 1, 2]"
    by (simp add: flatten_def merge_results_def dict_update_def)
  have k: "\<forall>p\<in>set ?ps. \<exists>k. ?h p ''bibcode'' = Some k" unfolding ps by simp
  have s: "\<forall>p\<in>set ?ps. \<exists>s. ?h p ''bibcode'' = Some (PStr s)" unfolding ps by simp
  from sort_publications_sorted_permutation[of ?ps ?h, OF k] s
  obtain qs where qs: "sort_publications ?h ?ps = Inr qs" "mset qs = mset ?ps" by blast
  have "sort_publications ?h ?ps = Inr [1, 2, 0]"
    unfolding ps by (simp add: sort_publications_def py_sort_def orderable_def lt_def)
  with qs show ?thesis by simp
qed

subsection \<open>The merged records\<close>

lemma retain_keywords_succeeds:
  "\<forall>b\<in>set bs. map_of kw b \<noteq> None \<and> map_of all b \<noteq> None \<Longrightarrow>
   \<forall>b k. map_of kw b = Some k \<longrightarrow> h k ''keywords'' \<noteq> None \<Longrightarrow>
   \<exists>h'. retain_keywords all kw bs h = Inr h'"
proof (induction bs arbitrary: h)
  case Nil
  then show ?case by simp
next
  case (Cons b bs)
  from Cons.prems(1) obtain k a where k: "map_of kw b = Some k" and a: "map_of all b = Some a"
    by auto
  from Cons.prems(2) k obtain v where v: "h k ''keywords'' = Some v" by blast
  let ?h = "h(a := (h a)(''keywords'' \<mapsto> v))"
  from Cons.prems(1) have 1: "\<forall>b\<in>set bs. map_of kw b \<noteq> None \<and> map_of all b \<noteq> None" by simp
  from Cons.prems(2) have 2: "\<forall>b k. map_of kw b = Some k \<longrightarrow> ?h k ''keywords'' \<noteq> None" by simp
  from Cons.IH[of ?h, OF 1 2] obtain h' where "retain_keywords all kw bs ?h = Inr h'" by blast
  with k a v show ?case by simp
qed

lemma map_of_keys: "b \<in> set (map fst xs) \<Longrightarrow> map_of xs b \<noteq> None"
  by (simp add: map_of_eq_None_iff)

lemma retain_keywords_run_succeeds:
  assumes "\<forall>k\<in>set (map snd by_keywords). h k ''keywords'' \<noteq> None"
  shows "\<exists>h'. retain_keywords (merge_results by_keywords by_authors) by_keywords
            (map fst by_keywords) h = Inr h'"
proof (rule retain_keywords_succeeds)
  show "\<forall>b\<in>set (map fst by_keywords). map_of by_keywords b \<noteq> None
      \<and> map_of (merge_results by_keywords by_authors) b \<noteq> None"
  proof
    fix b
    assume b: "b \<in> set (map fst by_keywords)"
    then have "b \<in> set (map fst (merge_results by_keywords by_authors))"
      unfolding keys_merge_results by simp
    with b show "map_of by_keywords b \<noteq> None
      \<and> map_of (merge_results by_keywords by_authors) b \<noteq> None"
      using map_of_keys by metis
  qed
next
  show "\<forall>b k. map_of by_keywords b = Some k \<longrightarrow> h k ''keywords'' \<noteq> None"
  proof (intro allI impI)
    fix b k
    assume "map_of by_keywords b = Some k"
    then have "(b, k) \<in> set by_keywords" by (rule map_of_SomeD)
    then have "k \<in> set (map snd by_keywords)" by force
    with assms show "h k ''keywords'' \<noteq> None" by blast
  qed
qed

text \<open>
  Claim C2. Let the two result mappings be dicts (no key twice) whose entries are all
  different record objects. For an identifier held by both, the merged mapping holds the
  by-authors record, and when the keywords loop succeeds that record has every field other
  than \<open>keywords\<close> as it was, and in \<open>keywords\<close> what the by-keywords record of the identifier
  had there.
\<close>

theorem retain_keywords_merged_record:
  assumes dk: "distinct (map fst by_keywords)" and da: "distinct (map fst by_authors)"
    and ds: "distinct (map snd by_keywords @ map snd by_authors)"
    and k: "map_of by_keywords b = Some k" and a: "map_of by_authors b = Some a"
    and r: "retain_keywords (merge_results by_keywords by_authors) by_keywords
              (map fst by_keywords) h = Inr h'"
  shows "map_of (merge_results by_keywords by_authors) b = Some a
    \<and> (\<forall>f. f \<noteq> ''keywords'' \<longrightarrow> h' a f = h a f)
    \<and> h' a ''keywords'' = h k ''keywords''"
proof -
  let ?all = "merge_results by_keywords by_authors"
  have m: "map_of ?all = map_of by_keywords ++ map_of by_authors"
    by (rule map_of_merge_results[OF dk da])
  with a have all_b: "map_of ?all b = Some a" by simp
  from ds have dsk: "distinct (map snd by_keywords)" and dsa: "distinct (map snd by_authors)"
    and disj: "set (map snd by_keywords) \<inter> set (map snd by_authors) = {}" by simp_all
  have other: "map_of ?all b' \<noteq> Some a \<and> map_of ?all b' \<noteq> Some k"
    if "b' \<noteq> b" for b'
  proof (cases "map_of by_authors b'")
    case None
    then have eq: "map_of ?all b' = map_of by_keywords b'" by (simp add: m map_add_def)
    have "map_of by_keywords b' \<noteq> Some a"
    proof
      assume "map_of by_keywords b' = Some a"
      then have "a \<in> set (map snd by_keywords)" by (force dest: map_of_SomeD)
      moreover from a have "a \<in> set (map snd by_authors)" by (force dest: map_of_SomeD)
      ultimately show False using disj by blast
    qed
    moreover have "map_of by_keywords b' \<noteq> Some k"
      using distinct_snd_inj[OF dsk k] that by blast
    ultimately show ?thesis using eq by simp
  next
    case (Some a')
    then have eq: "map_of ?all b' = Some a'" by (simp add: m map_add_def)
    have "a' \<noteq> a" using distinct_snd_inj[OF dsa a] Some that by blast
    moreover have "a' \<noteq> k"
    proof
      assume "a' = k"
      with Some have "k \<in> set (map snd by_authors)" by (force dest: map_of_SomeD)
      moreover from k have "k \<in> set (map snd by_keywords)" by (force dest: map_of_SomeD)
      ultimately show False using disj by blast
    qed
    ultimately show ?thesis using eq by simp
  qed
  from k have "(b, k) \<in> set by_keywords" by (rule map_of_SomeD)
  then have bin: "b \<in> set (map fst by_keywords)" by force
  have "h' a ''keywords'' = h k ''keywords''"
    by (rule retain_keywords_value[OF r bin dk k all_b]) (use other in blast)
  moreover have "\<forall>f. f \<noteq> ''keywords'' \<longrightarrow> h' a f = h a f"
    using retain_keywords_frame[OF r] by blast
  ultimately show ?thesis using all_b by blast
qed

theorem retain_keywords_merged_record_witness:
  "distinct (map fst [(''X'', 0::nat)]) \<and> distinct (map fst [(''X'', 1::nat)])
   \<and> distinct (map snd [(''X'', 0::nat)] @ map snd [(''X'', 1::nat)])
   \<and> map_of [(''X'', 0::nat)] ''X'' = Some 0 \<and> map_of [(''X'', 1::nat)] ''X'' = Some 1
   \<and> (case retain_keywords (merge_results [(''X'', 0)] [(''X'', 1)]) [(''X'', 0)] (map fst [(''X'', 0::nat)])
          ((\<lambda>_. Map.empty)
             (0 := [''bibcode'' \<mapsto> PStr ''X'', ''keywords'' \<mapsto> PList [''SALT'']],
              1 := [''bibcode'' \<mapsto> PStr ''X'', ''keywords'' \<mapsto> PList [], ''pub'' \<mapsto> PStr ''MNRAS''])) of
         Inl e \<Rightarrow> []
       | Inr h' \<Rightarrow> [h' 1 ''keywords'', h' 1 ''pub'', h' 1 ''bibcode''])
     = [Some (PList [''SALT'']), Some (PStr ''MNRAS''), Some (PStr ''X'')]"
proof -
  let ?kw = "[(''X'', 0::nat)]" and ?au = "[(''X'', 1::nat)]"
  let ?h = "(\<lambda>_. Map.empty)
     ((0::nat) := [''bibcode'' \<mapsto> PStr ''X'', ''keywords'' \<mapsto> PList [''SALT'']],
      1 := [''bibcode'' \<mapsto> PStr ''X'', ''keywords'' \<mapsto> PList [], ''pub'' \<mapsto> PStr ''MNRAS''])"
  have dk: "distinct (map fst ?kw)" and da: "distinct (map fst ?au)"
    and ds: "distinct (map snd ?kw @ map snd ?au)"
    and k: "map_of ?kw ''X'' = Some 0" and a: "map_of ?au ''X'' = Some 1" by simp_all
  obtain h' where r: "retain_keywords (merge_results ?kw ?au) ?kw (map fst ?kw) ?h = Inr h'"
    by (simp add: merge_results_def dict_update_def)
  from retain_keywords_merged_record[OF dk da ds k a r]
  have "h' 1 ''keywords'' = ?h 0 ''keywords''" "h' 1 ''pub'' = ?h 1 ''pub''"
    "h' 1 ''bibcode'' = ?h 1 ''bibcode''" by simp_all
  then have "h' 1 ''keywords'' = Some (PList [''SALT''])" "h' 1 ''pub'' = Some (PStr ''MNRAS'')"
    "h' 1 ''bibcode'' = Some (PStr ''X'')" by simp_all
  with r dk da ds k a show ?thesis by simp
qed

subsection \<open>A run and the files\<close>










subsection \<open>The previously found bibcodes\<close>

lemma config_module_no_previous_bibcodes_file:
  "map_of (config_module c) ''PREVIOUS_BIBCODES_FILE'' = None"
  by (simp add: config_module_def split: option.splits prod.splits)

text \<open>
  On a module that binds \<open>PREVIOUS_BIBCODES_FILE\<close> to a path, \<open>previously_found_bibcodes\<close>
  returns the stripped lines of the file when it exists, creates it and returns the empty
  list when it is missing and can be created, and raises otherwise.
\<close>

lemma previously_found_bibcodes_bound:
  assumes "map_of m ''PREVIOUS_BIBCODES_FILE'' = Some (CStr path)"
  shows "previously_found_bibcodes m fs =
    (case contents fs path of
       Some text \<Rightarrow> Inr (map strip (readlines text), fs)
     | None \<Rightarrow>
        if creatable fs path then Inr ([], fs\<lparr>contents := (contents fs)(path \<mapsto> [])\<rparr>)
        else Inl OSError)"
  using assms
  by (simp add: previously_found_bibcodes_def ensure_previously_recorded_file_exists_def
      previous_bibcodes_file_def module_getattr_def isfile_def open_w_def read_bibcodes_def
      readlines_def split: option.splits)

text \<open>
  Claim C9. The claim describes \<open>previously_found_bibcodes\<close> on a bound path (the lemma
  above). On the configuration module of the sources the code does otherwise: \<^verbatim>\<open>config.py\<close>
  binds no \<open>PREVIOUS_BIBCODES_FILE\<close>, so the first attribute access raises
  \<^verbatim>\<open>AttributeError\<close>, whatever the file system holds; no file is created and no list is
  returned.
\<close>

theorem previously_found_bibcodes_attribute_error:
  "previously_found_bibcodes (config_module c) fs = Inl (AttributeError ''PREVIOUS_BIBCODES_FILE'')"
  by (simp add: previously_found_bibcodes_def ensure_previously_recorded_file_exists_def
      previous_bibcodes_file_def module_getattr_def config_module_no_previous_bibcodes_file)

end
